theory Spec2Isabelle
  imports Main
begin

section \<open>Values and computation bodies\<close>

text \<open>
  Nodes live in a store and are named by their address; an object reference of the
  source is an address here.
\<close>

type_synonym addr = nat

text \<open>
  The engine never inspects the values it stores (\<open>result: any\<close>).  The values that
  the computations of the source produce are numbers and \<open>undefined\<close>; \<open>NaN\<close> is what
  arithmetic on \<open>undefined\<close> gives.  Numbers are modelled as unbounded integers.
\<close>

datatype val = Undefined | Num int | NaN

fun js_plus :: "val \<Rightarrow> val \<Rightarrow> val" where
  "js_plus (Num a) (Num b) = Num (a + b)"
| "js_plus _ _ = NaN"

fun js_minus :: "val \<Rightarrow> val \<Rightarrow> val" where
  "js_minus (Num a) (Num b) = Num (a - b)"
| "js_minus _ _ = NaN"

fun truthy :: "val \<Rightarrow> bool" where
  "truthy (Num n) = (n \<noteq> 0)"
| "truthy _ = False"

text \<open>
  A thunk of the source is an arbitrary function \<open>(self: Adapton) => any\<close>.  Its body is
  modelled by a small expression language whose primitives are the calls a thunk can
  make into the engine (\<open>adaptonForce\<close>, \<open>adaptonCompute\<close>, \<open>addEdge\<close>, \<open>adaptonRefSet\<close>),
  the read \<open>self.result\<close> of the ref cell's thunk, the arithmetic of the example thunks,
  sequencing, a conditional and \<open>throw\<close>.
\<close>

datatype expr =
    Lit val
  | SelfResult
  | Force addr
  | Compute addr
  | AddEdge addr addr
  | RefSet addr expr
  | Then expr expr
  | Add expr expr
  | Subtract expr expr
  | IfThenElse expr expr expr
  | Throw val

section \<open>Micro-Adapton: the store\<close>

record adapton =
  thunk :: expr
  result :: val
  sub :: "addr list"
  super :: "addr list"
  clean :: bool

text \<open>
  The store maps every address to a node; \<open>fresh_addr\<close> is the next address that an
  allocation hands out, and the addresses from there on hold \<open>blank\<close>.  The module
  variable \<open>currentlyAdapting\<close> is part of the state.
\<close>

record world =
  nodes :: "addr \<Rightarrow> adapton"
  fresh_addr :: addr
  currentlyAdapting :: "addr option"

definition blank :: adapton where
  "blank = \<lparr>thunk = Lit Undefined, result = Undefined, sub = [], super = [], clean = False\<rparr>"

definition empty_world :: world where
  "empty_world = \<lparr>nodes = (\<lambda>_. blank), fresh_addr = 0, currentlyAdapting = None\<rparr>"

definition upd :: "addr \<Rightarrow> (adapton \<Rightarrow> adapton) \<Rightarrow> world \<Rightarrow> world" where
  "upd a f s = s\<lparr>nodes := (nodes s)(a := f (nodes s a))\<rparr>"

text \<open>
  A JavaScript \<open>Set\<close> keeps its members in insertion order without duplicates:
  \<open>add\<close> of a member is a no-op, \<open>delete\<close> removes the member.
\<close>

definition set_add :: "addr \<Rightarrow> addr list \<Rightarrow> addr list" where
  "set_add x xs = (if x \<in> set xs then xs else xs @ [x])"

definition set_delete :: "addr \<Rightarrow> addr list \<Rightarrow> addr list" where
  "set_delete x xs = removeAll x xs"

definition makeAthunk :: "expr \<Rightarrow> world \<Rightarrow> addr \<times> world" where
  "makeAthunk t s =
     (let a = fresh_addr s in
      (a, s\<lparr>nodes := (nodes s)(a := \<lparr>thunk = t, result = Undefined, sub = [], super = [],
                                     clean = False\<rparr>),
             fresh_addr := Suc a\<rparr>))"

definition addEdge :: "addr \<Rightarrow> addr \<Rightarrow> world \<Rightarrow> world" where
  "addEdge superComp subComp s =
     upd subComp (\<lambda>n. n\<lparr>super := set_add superComp (super n)\<rparr>)
       (upd superComp (\<lambda>n. n\<lparr>sub := set_add subComp (sub n)\<rparr>) s)"

definition deleteEdge :: "addr \<Rightarrow> addr \<Rightarrow> world \<Rightarrow> world" where
  "deleteEdge superComp subComp s =
     upd subComp (\<lambda>n. n\<lparr>super := set_delete superComp (super n)\<rparr>)
       (upd superComp (\<lambda>n. n\<lparr>sub := set_delete subComp (sub n)\<rparr>) s)"

text \<open>
  \<open>adaptonDirty\<close> recurses through the \<open>super\<close> sets and need not return on every
  store the type admits, so it takes fuel: \<open>None\<close> is "did not return".  The loop
  \<open>for (const x of a.super) adaptonDirty(x)\<close> runs over the members in insertion order;
  the set is not changed while it runs.
\<close>

fun dirty_each :: "(addr \<Rightarrow> world \<Rightarrow> world option) \<Rightarrow> addr list \<Rightarrow> world \<Rightarrow> world option" where
  "dirty_each f [] s = Some s"
| "dirty_each f (x # xs) s = (case f x s of None \<Rightarrow> None | Some s' \<Rightarrow> dirty_each f xs s')"

fun adaptonDirty :: "nat \<Rightarrow> addr \<Rightarrow> world \<Rightarrow> world option" where
  "adaptonDirty 0 a s = None"
| "adaptonDirty (Suc k) a s =
     (if \<not> clean (nodes s a) then Some s
      else dirty_each (adaptonDirty k) (super (nodes s a))
             (upd a (\<lambda>n. n\<lparr>clean := False\<rparr>) s))"

definition adaptonRef :: "val \<Rightarrow> world \<Rightarrow> addr \<times> world" where
  "adaptonRef v s =
     (case makeAthunk SelfResult s of
        (a, s1) \<Rightarrow> (a, upd a (\<lambda>n. n\<lparr>clean := True\<rparr>) (upd a (\<lambda>n. n\<lparr>result := v\<rparr>) s1)))"

definition adaptonRefSet :: "nat \<Rightarrow> addr \<Rightarrow> val \<Rightarrow> world \<Rightarrow> world option" where
  "adaptonRefSet k a v s = adaptonDirty k a (upd a (\<lambda>n. n\<lparr>result := v\<rparr>) s)"

section \<open>The evaluator and the tracked read\<close>

datatype outcome = Returned val | Thrown val

text \<open>
  \<open>eval k self e s\<close> runs the body \<open>e\<close> of the thunk of node \<open>self\<close>.  An exception
  leaves the state as it is at the \<open>throw\<close>.  \<open>adaptonCompute\<close> may recurse without
  bound, so it takes fuel as well.  The loop over \<open>a.sub\<close> deletes the member it is
  visiting and no other, so it visits every member of the set as it was at loop entry.
\<close>

fun eval :: "nat \<Rightarrow> addr \<Rightarrow> expr \<Rightarrow> world \<Rightarrow> (outcome \<times> world) option"
and adaptonCompute :: "nat \<Rightarrow> addr \<Rightarrow> world \<Rightarrow> (outcome \<times> world) option"
and adaptonForce :: "nat \<Rightarrow> addr \<Rightarrow> world \<Rightarrow> (outcome \<times> world) option"
where
  "eval k self (Lit v) s = Some (Returned v, s)"
| "eval k self SelfResult s = Some (Returned (result (nodes s self)), s)"
| "eval k self (Force x) s = adaptonForce k x s"
| "eval k self (Compute x) s = adaptonCompute k x s"
| "eval k self (AddEdge x y) s = Some (Returned Undefined, addEdge x y s)"
| "eval k self (RefSet x e) s =
     (case eval k self e s of
        None \<Rightarrow> None
      | Some (Thrown ex, s1) \<Rightarrow> Some (Thrown ex, s1)
      | Some (Returned v, s1) \<Rightarrow>
          (case adaptonRefSet k x v s1 of
             None \<Rightarrow> None
           | Some s2 \<Rightarrow> Some (Returned Undefined, s2)))"
| "eval k self (Then e1 e2) s =
     (case eval k self e1 s of
        None \<Rightarrow> None
      | Some (Thrown ex, s1) \<Rightarrow> Some (Thrown ex, s1)
      | Some (Returned v, s1) \<Rightarrow> eval k self e2 s1)"
| "eval k self (Add e1 e2) s =
     (case eval k self e1 s of
        None \<Rightarrow> None
      | Some (Thrown ex, s1) \<Rightarrow> Some (Thrown ex, s1)
      | Some (Returned v1, s1) \<Rightarrow>
          (case eval k self e2 s1 of
             None \<Rightarrow> None
           | Some (Thrown ex, s2) \<Rightarrow> Some (Thrown ex, s2)
           | Some (Returned v2, s2) \<Rightarrow> Some (Returned (js_plus v1 v2), s2)))"
| "eval k self (Subtract e1 e2) s =
     (case eval k self e1 s of
        None \<Rightarrow> None
      | Some (Thrown ex, s1) \<Rightarrow> Some (Thrown ex, s1)
      | Some (Returned v1, s1) \<Rightarrow>
          (case eval k self e2 s1 of
             None \<Rightarrow> None
           | Some (Thrown ex, s2) \<Rightarrow> Some (Thrown ex, s2)
           | Some (Returned v2, s2) \<Rightarrow> Some (Returned (js_minus v1 v2), s2)))"
| "eval k self (IfThenElse c e1 e2) s =
     (case eval k self c s of
        None \<Rightarrow> None
      | Some (Thrown ex, s1) \<Rightarrow> Some (Thrown ex, s1)
      | Some (Returned v, s1) \<Rightarrow> (if truthy v then eval k self e1 s1 else eval k self e2 s1))"
| "eval k self (Throw v) s = Some (Thrown v, s)"
| "adaptonCompute 0 a s = None"
| "adaptonCompute (Suc k) a s =
     (if clean (nodes s a) then Some (Returned (result (nodes s a)), s)
      else
        (let s1 = fold (deleteEdge a) (sub (nodes s a)) s;
             s2 = upd a (\<lambda>n. n\<lparr>clean := True\<rparr>) s1
         in case eval k a (thunk (nodes s2 a)) s2 of
              None \<Rightarrow> None
            | Some (Thrown ex, s3) \<Rightarrow> Some (Thrown ex, s3)
            | Some (Returned v, s3) \<Rightarrow>
                adaptonCompute k a (upd a (\<lambda>n. n\<lparr>result := v\<rparr>) s3)))"
| "adaptonForce k a s =
     (let prevAdapting = currentlyAdapting s
      in case adaptonCompute k a (s\<lparr>currentlyAdapting := Some a\<rparr>) of
           None \<Rightarrow> None
         | Some (Thrown ex, s1) \<Rightarrow> Some (Thrown ex, s1)
         | Some (Returned v, s1) \<Rightarrow>
             (let s2 = s1\<lparr>currentlyAdapting := prevAdapting\<rparr>
              in case currentlyAdapting s2 of
                   None \<Rightarrow> Some (Returned v, s2)
                 | Some c \<Rightarrow> Some (Returned v, addEdge c a s2)))"


section \<open>Names for two intermediate states\<close>

text \<open>
  \<open>prepare a s\<close> is the state in which \<open>adaptonCompute\<close> invokes the thunk of a dirty
  node \<open>a\<close>: the loop over \<open>a.sub\<close> has run and \<open>a.clean\<close> is true.
  \<open>leave prev a s1\<close> is the state in which \<open>adaptonForce(a)\<close> returns when the
  computation came back in \<open>s1\<close>: the context is \<open>prev\<close> again and, when \<open>prev\<close> is a
  node, the edge from it to \<open>a\<close> is there.
\<close>

definition prepare :: "addr \<Rightarrow> world \<Rightarrow> world" where
  "prepare a s = upd a (\<lambda>n. n\<lparr>clean := True\<rparr>) (fold (deleteEdge a) (sub (nodes s a)) s)"

definition leave :: "addr option \<Rightarrow> addr \<Rightarrow> world \<Rightarrow> world" where
  "leave prev a s1 =
     (case prev of None \<Rightarrow> s1\<lparr>currentlyAdapting := None\<rparr>
      | Some c \<Rightarrow> addEdge c a (s1\<lparr>currentlyAdapting := Some c\<rparr>))"

section \<open>Edge symmetry and what every call keeps\<close>

text \<open>
  \<open>edge_symmetry\<close> is the invariant of the data model: \<open>y\<close> is in \<open>x.sub\<close> iff \<open>x\<close> is in
  \<open>y.super\<close>.  \<open>engine_frame s s'\<close> collects what no call changes (the thunks and the
  allocation pointer) and that edge symmetry carries over.  \<open>ctx_kept r s s'\<close> is what a
  call does to \<open>currentlyAdapting\<close>: a call that returns leaves it as it found it, and a
  context that was a node is a node afterwards.
\<close>

definition edge_symmetry :: "world \<Rightarrow> bool" where
  "edge_symmetry s \<longleftrightarrow>
     (\<forall>x y. y \<in> set (sub (nodes s x)) \<longleftrightarrow> x \<in> set (super (nodes s y)))"

definition engine_frame :: "world \<Rightarrow> world \<Rightarrow> bool" where
  "engine_frame s s' \<longleftrightarrow>
     fresh_addr s' = fresh_addr s \<and> (\<forall>n. thunk (nodes s' n) = thunk (nodes s n)) \<and>
     (edge_symmetry s \<longrightarrow> edge_symmetry s')"


text \<open>
  \<open>unused_addr a s\<close>: no set of the store has \<open>a\<close> as a member.  An object that
  \<open>makeAthunk\<close> has just created is in no set; the model allocates at \<open>fresh_addr\<close>.
\<close>

definition unused_addr :: "addr \<Rightarrow> world \<Rightarrow> bool" where
  "unused_addr a s \<longleftrightarrow>
     (\<forall>x. a \<notin> set (sub (nodes s x)) \<and> a \<notin> set (super (nodes s x)))"

section \<open>Computations that do not write to ref cells\<close>

text \<open>
  \<open>read_only s\<close>: no thunk of the store calls \<open>adaptonRefSet\<close>.  In such a store nothing
  is dirtied while a node is computed; \<open>settled s s'\<close> says what then carries over from \<open>s\<close>
  to \<open>s'\<close>: a node that was clean is still clean, has the result it had and is still a
  member of every \<open>super\<close> set it was in, and a ref cell holds the value it held.
\<close>

fun no_refset :: "expr \<Rightarrow> bool" where
  "no_refset (RefSet x e) = False"
| "no_refset (Then e1 e2) = (no_refset e1 \<and> no_refset e2)"
| "no_refset (Add e1 e2) = (no_refset e1 \<and> no_refset e2)"
| "no_refset (Subtract e1 e2) = (no_refset e1 \<and> no_refset e2)"
| "no_refset (IfThenElse c e1 e2) = (no_refset c \<and> no_refset e1 \<and> no_refset e2)"
| "no_refset e = True"

definition read_only :: "world \<Rightarrow> bool" where
  "read_only s \<longleftrightarrow> (\<forall>n. no_refset (thunk (nodes s n)))"

definition settled :: "world \<Rightarrow> world \<Rightarrow> bool" where
  "settled s s' \<longleftrightarrow>
     (\<forall>n. thunk (nodes s' n) = thunk (nodes s n)) \<and>
     (\<forall>n. clean (nodes s n) \<longrightarrow>
          clean (nodes s' n) \<and> result (nodes s' n) = result (nodes s n) \<and>
          (\<forall>z. n \<in> set (super (nodes s z)) \<longrightarrow> n \<in> set (super (nodes s' z)))) \<and>
     (\<forall>n. thunk (nodes s n) = SelfResult \<longrightarrow> result (nodes s' n) = result (nodes s n))"

section \<open>What a wave of dirtying changes\<close>

text \<open>
  \<open>flags_only s s'\<close>: the two states differ in \<open>clean\<close> flags at most, and no flag has
  gone from false to true.  \<open>clean_path s a x\<close>: \<open>x\<close> is reached from \<open>a\<close> along \<open>super\<close>
  edges through nodes that are all clean in \<open>s\<close> (\<open>a\<close> and \<open>x\<close> included);
  \<open>super_path s a x\<close>: \<open>x\<close> is reached from \<open>a\<close> along \<open>super\<close> edges, whatever the flags.
\<close>

definition flags_only :: "world \<Rightarrow> world \<Rightarrow> bool" where
  "flags_only s s' \<longleftrightarrow>
     fresh_addr s' = fresh_addr s \<and> currentlyAdapting s' = currentlyAdapting s \<and>
     (\<forall>n. thunk (nodes s' n) = thunk (nodes s n) \<and> result (nodes s' n) = result (nodes s n) \<and>
          sub (nodes s' n) = sub (nodes s n) \<and> super (nodes s' n) = super (nodes s n) \<and>
          (clean (nodes s' n) \<longrightarrow> clean (nodes s n)))"

inductive clean_path :: "world \<Rightarrow> addr \<Rightarrow> addr \<Rightarrow> bool" for s :: world and a :: addr where
  start: "clean (nodes s a) \<Longrightarrow> clean_path s a a"
| step: "clean_path s a x \<Longrightarrow> y \<in> set (super (nodes s x)) \<Longrightarrow> clean (nodes s y)
          \<Longrightarrow> clean_path s a y"

inductive super_path :: "world \<Rightarrow> addr \<Rightarrow> addr \<Rightarrow> bool" for s :: world and a :: addr where
  here: "super_path s a a"
| up: "super_path s a x \<Longrightarrow> y \<in> set (super (nodes s x)) \<Longrightarrow> super_path s a y"

definition dirty_post :: "world \<Rightarrow> world \<Rightarrow> bool" where
  "dirty_post s s' \<longleftrightarrow>
     (\<forall>x y. clean (nodes s x) \<and> \<not> clean (nodes s' x) \<and> y \<in> set (super (nodes s x))
        \<longrightarrow> \<not> clean (nodes s' y))"

section \<open>Computations that make no call into the engine\<close>




section \<open>Tracked computations and the fresh evaluation\<close>

text \<open>
  \<open>tracked b e\<close>: the body \<open>e\<close> is built from constants, arithmetic, the conditional and
  tracked reads \<open>adaptonForce(x)\<close> of nodes \<open>x\<close> below \<open>b\<close>, the address of its own node
  (a node reads nodes that were created before it, so no node depends on itself).
\<close>

fun tracked :: "addr \<Rightarrow> expr \<Rightarrow> bool" where
  "tracked b (Lit v) = True"
| "tracked b (Force x) = (x < b)"
| "tracked b (Add e1 e2) = (tracked b e1 \<and> tracked b e2)"
| "tracked b (Subtract e1 e2) = (tracked b e1 \<and> tracked b e2)"
| "tracked b (IfThenElse c e1 e2) = (tracked b c \<and> tracked b e1 \<and> tracked b e2)"
| "tracked b e = False"

text \<open>
  The value of a tracked body when every read \<open>adaptonForce(x)\<close> yields \<open>f x\<close>, and the
  nodes it reads on the way, in order.
\<close>

fun body_value :: "(addr \<Rightarrow> val) \<Rightarrow> expr \<Rightarrow> val" where
  "body_value f (Lit v) = v"
| "body_value f (Force x) = f x"
| "body_value f (Add e1 e2) = js_plus (body_value f e1) (body_value f e2)"
| "body_value f (Subtract e1 e2) = js_minus (body_value f e1) (body_value f e2)"
| "body_value f (IfThenElse c e1 e2) =
     (if truthy (body_value f c) then body_value f e1 else body_value f e2)"
| "body_value f e = Undefined"

fun body_reads :: "(addr \<Rightarrow> val) \<Rightarrow> expr \<Rightarrow> addr list" where
  "body_reads f (Force x) = [x]"
| "body_reads f (Add e1 e2) = body_reads f e1 @ body_reads f e2"
| "body_reads f (Subtract e1 e2) = body_reads f e1 @ body_reads f e2"
| "body_reads f (IfThenElse c e1 e2) =
     body_reads f c @ (if truthy (body_value f c) then body_reads f e1 else body_reads f e2)"
| "body_reads f e = []"

text \<open>
  Modelled from the spec's words: the "fresh, non-memoized evaluation of that node's
  computation graph" from the current ref values.  A ref cell evaluates to the value it
  holds; a thunk evaluates its body, every read being the fresh evaluation of the node read.
  No \<open>clean\<close> flag, cached result or edge is consulted.
\<close>

function fresh_value :: "world \<Rightarrow> addr \<Rightarrow> val" where
  "fresh_value s n =
     (if thunk (nodes s n) = SelfResult then result (nodes s n)
      else body_value (\<lambda>x. if x < n then fresh_value s x else Undefined) (thunk (nodes s n)))"
  by pat_completeness auto

termination
  by (relation "measure snd") auto

definition node_reads :: "world \<Rightarrow> addr \<Rightarrow> addr list" where
  "node_reads s n =
     (if thunk (nodes s n) = SelfResult then []
      else body_reads (fresh_value s) (thunk (nodes s n)))"

definition well_formed :: "world \<Rightarrow> bool" where
  "well_formed s \<longleftrightarrow> (\<forall>n. thunk (nodes s n) = SelfResult \<or> tracked n (thunk (nodes s n)))"

definition consistent_at :: "world \<Rightarrow> addr \<Rightarrow> bool" where
  "consistent_at s n \<longleftrightarrow>
     (clean (nodes s n) \<longrightarrow>
        result (nodes s n) = fresh_value s n \<and>
        (\<forall>z\<in>set (node_reads s n). clean (nodes s z) \<and> n \<in> set (super (nodes s z))))"

definition same_inputs :: "world \<Rightarrow> world \<Rightarrow> bool" where
  "same_inputs s s' \<longleftrightarrow>
     (\<forall>n. thunk (nodes s' n) = thunk (nodes s n)) \<and>
     (\<forall>n. thunk (nodes s n) = SelfResult \<longrightarrow> result (nodes s' n) = result (nodes s n))"

text \<open>
  The nodes that the body \<open>e\<close> of node \<open>self\<close> forces itself when it is run in state \<open>s\<close>,
  in order: the calls \<open>adaptonForce(x)\<close> that \<open>eval\<close> meets on the path it takes (not the
  reads that the forced nodes make in turn).
\<close>

fun forced_by :: "nat \<Rightarrow> addr \<Rightarrow> expr \<Rightarrow> world \<Rightarrow> addr list" where
  "forced_by k self (Force x) s = [x]"
| "forced_by k self (RefSet x e) s = forced_by k self e s"
| "forced_by k self (Then e1 e2) s =
     forced_by k self e1 s @
     (case eval k self e1 s of Some (Returned v, s1) \<Rightarrow> forced_by k self e2 s1 | _ \<Rightarrow> [])"
| "forced_by k self (Add e1 e2) s =
     forced_by k self e1 s @
     (case eval k self e1 s of Some (Returned v, s1) \<Rightarrow> forced_by k self e2 s1 | _ \<Rightarrow> [])"
| "forced_by k self (Subtract e1 e2) s =
     forced_by k self e1 s @
     (case eval k self e1 s of Some (Returned v, s1) \<Rightarrow> forced_by k self e2 s1 | _ \<Rightarrow> [])"
| "forced_by k self (IfThenElse c e1 e2) s =
     forced_by k self c s @
     (case eval k self c s of
        Some (Returned v, s1) \<Rightarrow>
          if truthy v then forced_by k self e1 s1 else forced_by k self e2 s1
      | _ \<Rightarrow> [])"
| "forced_by k self e s = []"

definition good_run :: "world \<Rightarrow> world \<Rightarrow> bool" where
  "good_run t t' \<longleftrightarrow>
     settled t t' \<and> (\<forall>n. clean (nodes t' n) \<and> \<not> clean (nodes t n) \<longrightarrow> consistent_at t' n)"

definition force_ok :: "nat \<Rightarrow> addr \<Rightarrow> world \<Rightarrow> bool" where
  "force_ok k x s \<longleftrightarrow>
     (\<exists>s'. adaptonForce k x s = Some (Returned (fresh_value s x), s') \<and> good_run s s' \<and>
           clean (nodes s' x) \<and> currentlyAdapting s' = currentlyAdapting s \<and>
           (\<forall>n. x < n \<longrightarrow> sub (nodes s' n) =
                  (if currentlyAdapting s = Some n then set_add x (sub (nodes s n))
                   else sub (nodes s n))) \<and>
           (\<forall>n. x < n \<longrightarrow> clean (nodes s' n) = clean (nodes s n)) \<and>
           (\<forall>c. currentlyAdapting s = Some c \<longrightarrow> c \<in> set (super (nodes s' x))) \<and>
           (\<not> clean (nodes s x) \<and> currentlyAdapting s \<noteq> Some x \<longrightarrow>
              set (sub (nodes s' x)) = set (node_reads s x)) \<and>
           (\<not> clean (nodes s x) \<longrightarrow>
              forced_by (k - 1) x (thunk (nodes s x)) (prepare x (s\<lparr>currentlyAdapting := Some x\<rparr>)) =
                node_reads s x))"

definition eval_ok :: "nat \<Rightarrow> addr \<Rightarrow> expr \<Rightarrow> world \<Rightarrow> world \<Rightarrow> bool" where
  "eval_ok k x e t t' \<longleftrightarrow>
     eval k x e t = Some (Returned (body_value (fresh_value t) e), t') \<and>
     forced_by k x e t = body_reads (fresh_value t) e \<and> good_run t t' \<and>
     currentlyAdapting t' = Some x \<and>
     (\<forall>n. x < n \<longrightarrow> sub (nodes t' n) = sub (nodes t n)) \<and>
     (\<forall>n. x < n \<longrightarrow> clean (nodes t' n) = clean (nodes t n)) \<and>
     set (sub (nodes t' x)) = set (sub (nodes t x)) \<union> set (body_reads (fresh_value t) e) \<and>
     (\<forall>z\<in>set (body_reads (fresh_value t) e). clean (nodes t' z) \<and> x \<in> set (super (nodes t' z)))"

section \<open>Client programs\<close>

text \<open>
  A client program is the list of calls a driving harness makes: it creates ref cells and
  thunks with tracked bodies, writes to ref cells and reads nodes with a top-level
  \<open>adaptonForce\<close>.  The fuel \<open>k\<close> of the engine calls is to exceed the number of nodes of
  the store; \<open>client_run\<close> is \<open>None\<close> when a call is not of this kind.
\<close>

datatype client_op = NewRef val | NewThunk expr | SetRef addr val | Read addr

fun client_step :: "nat \<Rightarrow> client_op \<Rightarrow> world \<Rightarrow> world option" where
  "client_step k (NewRef v) s = Some (snd (adaptonRef v s))"
| "client_step k (NewThunk e) s =
     (if tracked (fresh_addr s) e then Some (snd (makeAthunk e s)) else None)"
| "client_step k (SetRef a v) s =
     (if a < fresh_addr s \<and> fresh_addr s < k \<and> thunk (nodes s a) = SelfResult
      then adaptonRefSet k a v s else None)"
| "client_step k (Read a) s =
     (if a < fresh_addr s \<and> fresh_addr s < k
      then (case adaptonForce k a s of Some (Returned v, s') \<Rightarrow> Some s' | _ \<Rightarrow> None)
      else None)"


text \<open>
  The invariant of the states between the calls of a client program: every clean node
  holds its fresh value, the nodes it reads are clean and have it in their \<open>super\<close> set,
  no computation is in progress, and only allocated nodes are clean.
\<close>

definition coherent :: "world \<Rightarrow> bool" where
  "coherent s \<longleftrightarrow>
     well_formed s \<and> (\<forall>n. consistent_at s n) \<and> currentlyAdapting s = None \<and>
     (\<forall>n. clean (nodes s n) \<longrightarrow> n < fresh_addr s)"



section \<open>The stores of the source's test runs\<close>

text \<open>
  The second test of the source: \<open>r = adaptonRef(5)\<close> at address 0 and
  \<open>a = makeAthunk(() => adaptonForce(r) + 3)\<close> at address 1.
\<close>

definition world_B :: world where
  "world_B = snd (makeAthunk (Add (Force 0) (Lit (Num 3))) (snd (adaptonRef (Num 5) empty_world)))"

text \<open>The same store after the top-level read \<open>adaptonForce(a)\<close>.\<close>

definition world_B1 :: world where
  "world_B1 = (case adaptonForce 4 1 world_B of Some (_, s) \<Rightarrow> s | None \<Rightarrow> world_B)"

text \<open>The same store after \<open>adaptonRefSet(r, 2)\<close>.\<close>

definition world_B2 :: world where
  "world_B2 = (case adaptonRefSet 3 0 (Num 2) world_B1 of Some s \<Rightarrow> s | None \<Rightarrow> world_B1)"


text \<open>
  A thunk \<open>c = makeAthunk(() => 1)\<close> at address 0 that was never computed, a ref cell
  \<open>d = adaptonRef(0)\<close> at address 1, and the edge \<open>addEdge(d, c)\<close>.
\<close>

definition world_D :: world where
  "world_D = addEdge 1 0 (snd (adaptonRef (Num 0) (snd (makeAthunk (Lit (Num 1)) empty_world))))"

text \<open>
  A thunk that writes to the ref cell it has read: \<open>r = adaptonRef(1)\<close> at address 0 and
  \<open>a = makeAthunk(() => adaptonForce(r) ? (adaptonRefSet(r, 0), 5) : 0)\<close> at address 1.
\<close>

definition world_W :: world where
  "world_W = snd (makeAthunk (IfThenElse (Force 0) (Then (RefSet 0 (Lit (Num 0))) (Lit (Num 5)))
                                (Lit (Num 0)))
                   (snd (adaptonRef (Num 1) empty_world)))"

text \<open>
  A chain of three: \<open>c = adaptonRef(7)\<close> at address 0, \<open>b = makeAthunk(() => adaptonForce(c))\<close>
  at address 1 and \<open>a = makeAthunk(() => adaptonForce(b))\<close> at address 2.
\<close>

definition world_N :: world where
  "world_N = snd (makeAthunk (Force 1) (snd (makeAthunk (Force 0)
                (snd (adaptonRef (Num 7) empty_world)))))"







section \<open>Reading the store\<close>

lemma nodes_upd: "nodes (upd a f s) x = (if x = a then f (nodes s a) else nodes s x)"
  by (simp add: upd_def)

lemma fresh_addr_upd: "fresh_addr (upd a f s) = fresh_addr s"
  by (simp add: upd_def)

lemma ctx_upd: "currentlyAdapting (upd a f s) = currentlyAdapting s"
  by (simp add: upd_def)


lemma set_set_add: "set (set_add x xs) = insert x (set xs)"
  by (auto simp: set_add_def)

lemma set_set_delete: "set (set_delete x xs) = set xs - {x}"
  by (simp add: set_delete_def)

lemma addEdge_fields:
  "thunk (nodes (addEdge c a s) x) = thunk (nodes s x)"
  "result (nodes (addEdge c a s) x) = result (nodes s x)"
  "clean (nodes (addEdge c a s) x) = clean (nodes s x)"
  "fresh_addr (addEdge c a s) = fresh_addr s"
  "currentlyAdapting (addEdge c a s) = currentlyAdapting s"
  by (simp_all add: addEdge_def nodes_upd fresh_addr_upd ctx_upd)

lemma addEdge_sub:
  "sub (nodes (addEdge c a s) x) = (if x = c then set_add a (sub (nodes s x)) else sub (nodes s x))"
  by (simp add: addEdge_def nodes_upd)

lemma addEdge_super:
  "super (nodes (addEdge c a s) y) =
     (if y = a then set_add c (super (nodes s y)) else super (nodes s y))"
  by (simp add: addEdge_def nodes_upd)

lemma deleteEdge_fields:
  "thunk (nodes (deleteEdge c a s) x) = thunk (nodes s x)"
  "result (nodes (deleteEdge c a s) x) = result (nodes s x)"
  "clean (nodes (deleteEdge c a s) x) = clean (nodes s x)"
  "fresh_addr (deleteEdge c a s) = fresh_addr s"
  "currentlyAdapting (deleteEdge c a s) = currentlyAdapting s"
  by (simp_all add: deleteEdge_def nodes_upd fresh_addr_upd ctx_upd)

lemma deleteEdge_sub:
  "sub (nodes (deleteEdge c a s) x) =
     (if x = c then set_delete a (sub (nodes s x)) else sub (nodes s x))"
  by (simp add: deleteEdge_def nodes_upd)

lemma deleteEdge_super:
  "super (nodes (deleteEdge c a s) y) =
     (if y = a then set_delete c (super (nodes s y)) else super (nodes s y))"
  by (simp add: deleteEdge_def nodes_upd)

text \<open>The loop that clears the dependencies of a node, read field by field.\<close>

lemma fold_deleteEdge_fields:
  "thunk (nodes (fold (deleteEdge a) xs s) x) = thunk (nodes s x)"
  "result (nodes (fold (deleteEdge a) xs s) x) = result (nodes s x)"
  "clean (nodes (fold (deleteEdge a) xs s) x) = clean (nodes s x)"
  "fresh_addr (fold (deleteEdge a) xs s) = fresh_addr s"
  "currentlyAdapting (fold (deleteEdge a) xs s) = currentlyAdapting s"
  by (induction xs arbitrary: s; simp add: deleteEdge_fields)+

lemma fold_deleteEdge_sub:
  "sub (nodes (fold (deleteEdge a) xs s) x) =
     (if x = a then filter (\<lambda>y. y \<notin> set xs) (sub (nodes s x)) else sub (nodes s x))"
proof (induction xs arbitrary: s)
  case Nil
  show ?case by simp
next
  case (Cons y ys)
  have "filter (\<lambda>z. z \<notin> set ys) (removeAll y zs) = filter (\<lambda>z. z \<noteq> y \<and> z \<notin> set ys) zs" for zs
    by (induction zs) auto
  then show ?case
    by (simp add: Cons.IH deleteEdge_sub set_delete_def)
qed

lemma fold_deleteEdge_super:
  "super (nodes (fold (deleteEdge a) xs s) y) =
     (if y \<in> set xs then removeAll a (super (nodes s y)) else super (nodes s y))"
proof (induction xs arbitrary: s)
  case Nil
  show ?case by simp
next
  case (Cons z zs)
  show ?case
    by (simp add: Cons.IH deleteEdge_super set_delete_def)
qed

lemma fold_deleteEdge_own_sub:
  "sub (nodes (fold (deleteEdge a) (sub (nodes s a)) s) a) = []"
  by (simp add: fold_deleteEdge_sub)

section \<open>The stores of the test runs, evaluated\<close>

text \<open>
  The engine's definitions unfolded on the example stores: what each node of a store holds
  after the calls that built it.  Fuel is written in unary so that the equations of the
  engine apply.
\<close>

lemmas engine_defs = adaptonRef_def makeAthunk_def empty_world_def upd_def addEdge_def
  deleteEdge_def set_add_def set_delete_def blank_def adaptonRefSet_def Let_def

lemma three_fuel: "(3::nat) = Suc (Suc (Suc 0))"
  by simp

lemma four_fuel: "(4::nat) = Suc (Suc (Suc (Suc 0)))"
  by simp

lemma five_fuel: "(5::nat) = Suc (Suc (Suc (Suc (Suc 0))))"
  by simp


lemma world_B1_nodes:
  "nodes world_B1 x =
     (if x = 0 then \<lparr>thunk = SelfResult, result = Num 5, sub = [], super = [1], clean = True\<rparr>
      else if x = 1 then \<lparr>thunk = Add (Force 0) (Lit (Num 3)), result = Num 8, sub = [0],
                           super = [], clean = True\<rparr>
      else blank)"
  by (simp add: world_B1_def world_B_def engine_defs four_fuel)

lemma world_B1_rest: "fresh_addr world_B1 = 2" "currentlyAdapting world_B1 = None"
  by (simp_all add: world_B1_def world_B_def engine_defs four_fuel)

lemma world_B2_nodes:
  "nodes world_B2 x =
     (if x = 0 then \<lparr>thunk = SelfResult, result = Num 2, sub = [], super = [1], clean = False\<rparr>
      else if x = 1 then \<lparr>thunk = Add (Force 0) (Lit (Num 3)), result = Num 8, sub = [0],
                           super = [], clean = False\<rparr>
      else blank)"
  by (simp add: world_B2_def world_B1_def world_B_def engine_defs four_fuel three_fuel)

lemma world_B2_rest: "fresh_addr world_B2 = 2" "currentlyAdapting world_B2 = None"
  by (simp_all add: world_B2_def world_B1_def world_B_def engine_defs four_fuel three_fuel)


lemma world_D_nodes:
  "nodes world_D x =
     (if x = 0 then \<lparr>thunk = Lit (Num 1), result = Undefined, sub = [], super = [1], clean = False\<rparr>
      else if x = 1 then \<lparr>thunk = SelfResult, result = Num 0, sub = [0], super = [], clean = True\<rparr>
      else blank)"
  by (simp add: world_D_def engine_defs)


lemma world_W_nodes:
  "nodes world_W x =
     (if x = 0 then \<lparr>thunk = SelfResult, result = Num 1, sub = [], super = [], clean = True\<rparr>
      else if x = 1 then
        \<lparr>thunk = IfThenElse (Force 0) (Then (RefSet 0 (Lit (Num 0))) (Lit (Num 5))) (Lit (Num 0)),
         result = Undefined, sub = [], super = [], clean = False\<rparr>
      else blank)"
  by (simp add: world_W_def engine_defs)

lemma world_N_nodes:
  "nodes world_N x =
     (if x = 0 then \<lparr>thunk = SelfResult, result = Num 7, sub = [], super = [], clean = True\<rparr>
      else if x = 1 then \<lparr>thunk = Force 0, result = Undefined, sub = [], super = [], clean = False\<rparr>
      else if x = 2 then \<lparr>thunk = Force 1, result = Undefined, sub = [], super = [], clean = False\<rparr>
      else blank)"
  by (simp add: world_N_def engine_defs)

lemma world_N_rest: "fresh_addr world_N = 3" "currentlyAdapting world_N = None"
  by (simp_all add: world_N_def engine_defs)




section \<open>The memoization fast path\<close>

text \<open>
  C2. On a node whose \<open>clean\<close> flag is true, \<open>adaptonCompute\<close> returns the cached result
  and leaves the whole state as it was.  The computation function is not invoked: the
  answer is the same whatever thunk the node holds (also one that would throw or never
  return), and one unit of fuel, which no invocation could be run on, is enough.
\<close>

theorem compute_clean_cached:
  assumes "clean (nodes s a)"
  shows "adaptonCompute (Suc k) a s = Some (Returned (result (nodes s a)), s) \<and>
         adaptonCompute (Suc 0) a (upd a (\<lambda>n. n\<lparr>thunk := t\<rparr>) s) =
           Some (Returned (result (nodes s a)), upd a (\<lambda>n. n\<lparr>thunk := t\<rparr>) s)"
  using assms by (simp add: nodes_upd)

theorem compute_clean_cached_witness:
  "clean (nodes world_B 0) \<and>
   adaptonCompute (Suc 3) 0 world_B = Some (Returned (Num 5), world_B) \<and>
   adaptonCompute (Suc 0) 0 (upd 0 (\<lambda>n. n\<lparr>thunk := Throw Undefined\<rparr>) world_B) =
     Some (Returned (Num 5), upd 0 (\<lambda>n. n\<lparr>thunk := Throw Undefined\<rparr>) world_B)"
proof -
  have c: "clean (nodes world_B 0)"
    by code_simp
  have r: "result (nodes world_B 0) = Num 5"
    by code_simp
  show ?thesis
    using c compute_clean_cached [OF c, of 3 "Throw Undefined"] by (simp add: r)
qed

section \<open>The evaluator, one rule per way a call can end\<close>

lemma compute_dirty_unfold:
  "\<not> clean (nodes s a) \<Longrightarrow>
   adaptonCompute (Suc k) a s =
     (case eval k a (thunk (nodes (prepare a s) a)) (prepare a s) of
        None \<Rightarrow> None
      | Some (Thrown ex, s3) \<Rightarrow> Some (Thrown ex, s3)
      | Some (Returned v, s3) \<Rightarrow> adaptonCompute k a (upd a (\<lambda>n. n\<lparr>result := v\<rparr>) s3))"
  by (simp add: prepare_def Let_def)

lemma force_unfold:
  "adaptonForce k a s =
     (case adaptonCompute k a (s\<lparr>currentlyAdapting := Some a\<rparr>) of
        None \<Rightarrow> None
      | Some (Thrown ex, s1) \<Rightarrow> Some (Thrown ex, s1)
      | Some (Returned v, s1) \<Rightarrow> Some (Returned v, leave (currentlyAdapting s) a s1))"
  by (auto simp: leave_def Let_def split: option.splits outcome.splits)

lemma run_induct:
  fixes P :: "addr \<Rightarrow> expr \<Rightarrow> world \<Rightarrow> outcome \<Rightarrow> world \<Rightarrow> bool"
    and C :: "addr \<Rightarrow> world \<Rightarrow> outcome \<Rightarrow> world \<Rightarrow> bool"
    and F :: "addr \<Rightarrow> world \<Rightarrow> outcome \<Rightarrow> world \<Rightarrow> bool"
  assumes lit: "\<And>self v s. P self (Lit v) s (Returned v) s"
    and selfres: "\<And>self s. P self SelfResult s (Returned (result (nodes s self))) s"
    and force: "\<And>k self x s r s'. adaptonForce k x s = Some (r, s') \<Longrightarrow> F x s r s'
                  \<Longrightarrow> P self (Force x) s r s'"
    and compute: "\<And>k self x s r s'. adaptonCompute k x s = Some (r, s') \<Longrightarrow> C x s r s'
                  \<Longrightarrow> P self (Compute x) s r s'"
    and addedge: "\<And>self x y s. P self (AddEdge x y) s (Returned Undefined) (addEdge x y s)"
    and refset_throw: "\<And>k self x e s ex s1. eval k self e s = Some (Thrown ex, s1)
                  \<Longrightarrow> P self e s (Thrown ex) s1 \<Longrightarrow> P self (RefSet x e) s (Thrown ex) s1"
    and refset: "\<And>k self x e s v s1 s2. eval k self e s = Some (Returned v, s1)
                  \<Longrightarrow> P self e s (Returned v) s1 \<Longrightarrow> adaptonRefSet k x v s1 = Some s2
                  \<Longrightarrow> P self (RefSet x e) s (Returned Undefined) s2"
    and then_throw: "\<And>k self e1 e2 s ex s1. eval k self e1 s = Some (Thrown ex, s1)
                  \<Longrightarrow> P self e1 s (Thrown ex) s1 \<Longrightarrow> P self (Then e1 e2) s (Thrown ex) s1"
    and then_next: "\<And>k self e1 e2 s v s1 r s'. eval k self e1 s = Some (Returned v, s1)
                  \<Longrightarrow> P self e1 s (Returned v) s1 \<Longrightarrow> eval k self e2 s1 = Some (r, s')
                  \<Longrightarrow> P self e2 s1 r s' \<Longrightarrow> P self (Then e1 e2) s r s'"
    and add_throw1: "\<And>k self e1 e2 s ex s1. eval k self e1 s = Some (Thrown ex, s1)
                  \<Longrightarrow> P self e1 s (Thrown ex) s1 \<Longrightarrow> P self (Add e1 e2) s (Thrown ex) s1"
    and add_throw2: "\<And>k self e1 e2 s v1 s1 ex s2. eval k self e1 s = Some (Returned v1, s1)
                  \<Longrightarrow> P self e1 s (Returned v1) s1 \<Longrightarrow> eval k self e2 s1 = Some (Thrown ex, s2)
                  \<Longrightarrow> P self e2 s1 (Thrown ex) s2 \<Longrightarrow> P self (Add e1 e2) s (Thrown ex) s2"
    and add: "\<And>k self e1 e2 s v1 s1 v2 s2. eval k self e1 s = Some (Returned v1, s1)
                  \<Longrightarrow> P self e1 s (Returned v1) s1 \<Longrightarrow> eval k self e2 s1 = Some (Returned v2, s2)
                  \<Longrightarrow> P self e2 s1 (Returned v2) s2
                  \<Longrightarrow> P self (Add e1 e2) s (Returned (js_plus v1 v2)) s2"
    and sub_throw1: "\<And>k self e1 e2 s ex s1. eval k self e1 s = Some (Thrown ex, s1)
                  \<Longrightarrow> P self e1 s (Thrown ex) s1 \<Longrightarrow> P self (Subtract e1 e2) s (Thrown ex) s1"
    and sub_throw2: "\<And>k self e1 e2 s v1 s1 ex s2. eval k self e1 s = Some (Returned v1, s1)
                  \<Longrightarrow> P self e1 s (Returned v1) s1 \<Longrightarrow> eval k self e2 s1 = Some (Thrown ex, s2)
                  \<Longrightarrow> P self e2 s1 (Thrown ex) s2 \<Longrightarrow> P self (Subtract e1 e2) s (Thrown ex) s2"
    and subtract: "\<And>k self e1 e2 s v1 s1 v2 s2. eval k self e1 s = Some (Returned v1, s1)
                  \<Longrightarrow> P self e1 s (Returned v1) s1 \<Longrightarrow> eval k self e2 s1 = Some (Returned v2, s2)
                  \<Longrightarrow> P self e2 s1 (Returned v2) s2
                  \<Longrightarrow> P self (Subtract e1 e2) s (Returned (js_minus v1 v2)) s2"
    and if_throw: "\<And>k self c e1 e2 s ex s1. eval k self c s = Some (Thrown ex, s1)
                  \<Longrightarrow> P self c s (Thrown ex) s1 \<Longrightarrow> P self (IfThenElse c e1 e2) s (Thrown ex) s1"
    and if_true: "\<And>k self c e1 e2 s v s1 r s'. eval k self c s = Some (Returned v, s1)
                  \<Longrightarrow> P self c s (Returned v) s1 \<Longrightarrow> truthy v \<Longrightarrow> eval k self e1 s1 = Some (r, s')
                  \<Longrightarrow> P self e1 s1 r s' \<Longrightarrow> P self (IfThenElse c e1 e2) s r s'"
    and if_false: "\<And>k self c e1 e2 s v s1 r s'. eval k self c s = Some (Returned v, s1)
                  \<Longrightarrow> P self c s (Returned v) s1 \<Longrightarrow> \<not> truthy v \<Longrightarrow> eval k self e2 s1 = Some (r, s')
                  \<Longrightarrow> P self e2 s1 r s' \<Longrightarrow> P self (IfThenElse c e1 e2) s r s'"
    and throw: "\<And>self v s. P self (Throw v) s (Thrown v) s"
    and compute_clean: "\<And>a s. clean (nodes s a) \<Longrightarrow> C a s (Returned (result (nodes s a))) s"
    and compute_throw: "\<And>k a s ex s3. \<not> clean (nodes s a)
                  \<Longrightarrow> eval k a (thunk (nodes (prepare a s) a)) (prepare a s) = Some (Thrown ex, s3)
                  \<Longrightarrow> P a (thunk (nodes (prepare a s) a)) (prepare a s) (Thrown ex) s3
                  \<Longrightarrow> C a s (Thrown ex) s3"
    and compute_again: "\<And>k a s v s3 r s'. \<not> clean (nodes s a)
                  \<Longrightarrow> eval k a (thunk (nodes (prepare a s) a)) (prepare a s) = Some (Returned v, s3)
                  \<Longrightarrow> P a (thunk (nodes (prepare a s) a)) (prepare a s) (Returned v) s3
                  \<Longrightarrow> adaptonCompute k a (upd a (\<lambda>n. n\<lparr>result := v\<rparr>) s3) = Some (r, s')
                  \<Longrightarrow> C a (upd a (\<lambda>n. n\<lparr>result := v\<rparr>) s3) r s'
                  \<Longrightarrow> C a s r s'"
    and force_throw: "\<And>k a s ex s1.
                  adaptonCompute k a (s\<lparr>currentlyAdapting := Some a\<rparr>) = Some (Thrown ex, s1)
                  \<Longrightarrow> C a (s\<lparr>currentlyAdapting := Some a\<rparr>) (Thrown ex) s1
                  \<Longrightarrow> F a s (Thrown ex) s1"
    and force_return: "\<And>k a s v s1.
                  adaptonCompute k a (s\<lparr>currentlyAdapting := Some a\<rparr>) = Some (Returned v, s1)
                  \<Longrightarrow> C a (s\<lparr>currentlyAdapting := Some a\<rparr>) (Returned v) s1
                  \<Longrightarrow> F a s (Returned v) (leave (currentlyAdapting s) a s1)"
  shows "(\<forall>k self e s r s'. eval k self e s = Some (r, s') \<longrightarrow> P self e s r s') \<and>
         (\<forall>k a s r s'. adaptonCompute k a s = Some (r, s') \<longrightarrow> C a s r s') \<and>
         (\<forall>k a s r s'. adaptonForce k a s = Some (r, s') \<longrightarrow> F a s r s')"
proof -
  have "(eval k self e s = Some (r, s') \<longrightarrow> P self e s r s')"
    and "(adaptonCompute k a s = Some (r, s') \<longrightarrow> C a s r s')"
    and "(adaptonForce k a s = Some (r, s') \<longrightarrow> F a s r s')" for k self e s a r s'
proof (induction k self e s and k a s and k a s arbitrary: r s' and r s' and r s'
       rule: eval_adaptonCompute_adaptonForce.induct)
  case (1 k self v s)
  show ?case using lit by auto
next
  case (2 k self s)
  show ?case using selfres by auto
next
  case (3 k self x s)
  then show ?case using force by auto
next
  case (4 k self x s)
  then show ?case using compute by auto
next
  case (5 k self x y s)
  show ?case using addedge by auto
next
  case (6 k self x e s)
  show ?case
  proof
    assume run: "eval k self (RefSet x e) s = Some (r, s')"
    then obtain r1 s1 where e: "eval k self e s = Some (r1, s1)"
      by (auto split: option.splits)
    with 6 have p: "P self e s r1 s1" by blast
    show "P self (RefSet x e) s r s'"
    proof (cases r1)
      case (Thrown ex)
      with run e p refset_throw show ?thesis by auto
    next
      case (Returned v)
      with run e obtain s2 where "adaptonRefSet k x v s1 = Some s2" "r = Returned Undefined" "s' = s2"
        by (auto split: option.splits)
      with Returned e p refset show ?thesis by auto
    qed
  qed
next
  case (7 k self e1 e2 s)
  show ?case
  proof
    assume run: "eval k self (Then e1 e2) s = Some (r, s')"
    then obtain r1 s1 where e: "eval k self e1 s = Some (r1, s1)"
      by (auto split: option.splits)
    with 7 have p: "P self e1 s r1 s1" by blast
    show "P self (Then e1 e2) s r s'"
    proof (cases r1)
      case (Thrown ex)
      with run e p then_throw show ?thesis by auto
    next
      case (Returned v)
      with run e have e2: "eval k self e2 s1 = Some (r, s')" by simp
      with 7(2) e Returned have "P self e2 s1 r s'" by blast
      with Returned e p e2 then_next show ?thesis by blast
    qed
  qed
next
  case (8 k self e1 e2 s)
  show ?case
  proof
    assume run: "eval k self (Add e1 e2) s = Some (r, s')"
    then obtain r1 s1 where e: "eval k self e1 s = Some (r1, s1)"
      by (auto split: option.splits)
    with 8 have p: "P self e1 s r1 s1" by blast
    show "P self (Add e1 e2) s r s'"
    proof (cases r1)
      case (Thrown ex)
      with run e p add_throw1 show ?thesis by auto
    next
      case (Returned v)
      with run e obtain r2 s2 where e2: "eval k self e2 s1 = Some (r2, s2)"
        by (auto split: option.splits)
      with 8(2) e Returned have p2: "P self e2 s1 r2 s2" by blast
      show ?thesis
      proof (cases r2)
        case (Thrown ex)
        with run e e2 Returned have "r = Thrown ex" "s' = s2" by auto
        with Thrown Returned e p e2 p2 add_throw2 show ?thesis by blast
      next
        case R2: (Returned v2)
        with run e e2 Returned have "r = Returned (js_plus v v2)" "s' = s2" by auto
        with R2 Returned e p e2 p2 add show ?thesis by blast
      qed
    qed
  qed
next
  case (9 k self e1 e2 s)
  show ?case
  proof
    assume run: "eval k self (Subtract e1 e2) s = Some (r, s')"
    then obtain r1 s1 where e: "eval k self e1 s = Some (r1, s1)"
      by (auto split: option.splits)
    with 9 have p: "P self e1 s r1 s1" by blast
    show "P self (Subtract e1 e2) s r s'"
    proof (cases r1)
      case (Thrown ex)
      with run e p sub_throw1 show ?thesis by auto
    next
      case (Returned v)
      with run e obtain r2 s2 where e2: "eval k self e2 s1 = Some (r2, s2)"
        by (auto split: option.splits)
      with 9(2) e Returned have p2: "P self e2 s1 r2 s2" by blast
      show ?thesis
      proof (cases r2)
        case (Thrown ex)
        with run e e2 Returned have "r = Thrown ex" "s' = s2" by auto
        with Thrown Returned e p e2 p2 sub_throw2 show ?thesis by blast
      next
        case R2: (Returned v2)
        with run e e2 Returned have "r = Returned (js_minus v v2)" "s' = s2" by auto
        with R2 Returned e p e2 p2 subtract show ?thesis by blast
      qed
    qed
  qed
next
  case (10 k self c e1 e2 s)
  show ?case
  proof
    assume run: "eval k self (IfThenElse c e1 e2) s = Some (r, s')"
    then obtain r1 s1 where e: "eval k self c s = Some (r1, s1)"
      by (auto split: option.splits)
    with 10 have p: "P self c s r1 s1" by blast
    show "P self (IfThenElse c e1 e2) s r s'"
    proof (cases r1)
      case (Thrown ex)
      with run e p if_throw show ?thesis by auto
    next
      case (Returned v)
      show ?thesis
      proof (cases "truthy v")
        case True
        with run e Returned have e2: "eval k self e1 s1 = Some (r, s')" by simp
        with 10(2) e Returned True have "P self e1 s1 r s'" by blast
        with Returned True e p e2 if_true show ?thesis by blast
      next
        case False
        with run e Returned have e2: "eval k self e2 s1 = Some (r, s')" by simp
        with 10(3) e Returned False have "P self e2 s1 r s'" by blast
        with Returned False e p e2 if_false show ?thesis by blast
      qed
    qed
  qed
next
  case (11 k self v s)
  show ?case using throw by auto
next
  case (12 a s)
  show ?case by simp
next
  case (13 k a s)
  show ?case
  proof (cases "clean (nodes s a)")
    case True
    then show ?thesis using compute_clean by auto
  next
    case False
    show ?thesis
    proof
      assume "adaptonCompute (Suc k) a s = Some (r, s')"
      then have run:
        "(case eval k a (thunk (nodes (prepare a s) a)) (prepare a s) of
            None \<Rightarrow> None
          | Some (Thrown ex, s3) \<Rightarrow> Some (Thrown ex, s3)
          | Some (Returned v, s3) \<Rightarrow> adaptonCompute k a (upd a (\<lambda>n. n\<lparr>result := v\<rparr>) s3))
         = Some (r, s')"
        by (simp only: compute_dirty_unfold [OF False])
      then obtain r3 s3 where
        e: "eval k a (thunk (nodes (prepare a s) a)) (prepare a s) = Some (r3, s3)"
        by (auto split: option.splits)
      have p: "P a (thunk (nodes (prepare a s) a)) (prepare a s) r3 s3"
        using 13(1) [OF False refl refl] e by (simp add: prepare_def)
      show "C a s r s'"
      proof (cases r3)
        case (Thrown ex)
        with run e have "r = Thrown ex" "s' = s3"
          by auto
        with Thrown False e p compute_throw show ?thesis by blast
      next
        case (Returned v)
        with run e have again:
          "adaptonCompute k a (upd a (\<lambda>n. n\<lparr>result := v\<rparr>) s3) = Some (r, s')"
          by auto
        have "C a (upd a (\<lambda>n. n\<lparr>result := v\<rparr>) s3) r s'"
          using 13(2) [OF False refl refl, of "(r3, s3)" r3 s3 v] e Returned again
          by (simp add: prepare_def)
        with Returned False e p again compute_again show ?thesis by blast
      qed
    qed
  qed
next
  case (14 k a s)
  show ?case
  proof
    assume "adaptonForce k a s = Some (r, s')"
    then have run:
      "(case adaptonCompute k a (s\<lparr>currentlyAdapting := Some a\<rparr>) of
          None \<Rightarrow> None
        | Some (Thrown ex, s1) \<Rightarrow> Some (Thrown ex, s1)
        | Some (Returned v, s1) \<Rightarrow> Some (Returned v, leave (currentlyAdapting s) a s1))
       = Some (r, s')"
      by (simp only: force_unfold)
    then obtain r1 s1 where
      c: "adaptonCompute k a (s\<lparr>currentlyAdapting := Some a\<rparr>) = Some (r1, s1)"
      by (auto split: option.splits)
    with 14 have p: "C a (s\<lparr>currentlyAdapting := Some a\<rparr>) r1 s1" by blast
    show "F a s r s'"
    proof (cases r1)
      case (Thrown ex)
      with run c have "r = Thrown ex" "s' = s1" by auto
      with Thrown c p force_throw show ?thesis by blast
    next
      case (Returned v)
      with run c have "r = Returned v" "s' = leave (currentlyAdapting s) a s1"
        by auto
      with Returned c p force_return show ?thesis by blast
    qed
  qed
qed
  then show ?thesis by blast
qed

section \<open>The dirty propagator\<close>

lemma flags_only_refl: "flags_only s s"
  by (simp add: flags_only_def)

lemma flags_only_trans: "flags_only s t \<Longrightarrow> flags_only t u \<Longrightarrow> flags_only s u"
  by (simp add: flags_only_def)

lemma flags_only_unclean: "flags_only s (upd a (\<lambda>n. n\<lparr>clean := False\<rparr>) s)"
  by (simp add: flags_only_def nodes_upd fresh_addr_upd ctx_upd)

lemma clean_path_clean: "clean_path s a x \<Longrightarrow> clean (nodes s x)"
  by (induction rule: clean_path.induct) auto

lemma clean_path_trans: "clean_path s z x \<Longrightarrow> clean_path s a z \<Longrightarrow> clean_path s a x"
  by (induction rule: clean_path.induct) (auto intro: clean_path.step)

lemma clean_path_mono:
  assumes "clean_path t z x" and "flags_only s t"
  shows "clean_path s z x"
  using assms
  by (induction rule: clean_path.induct) (auto simp: flags_only_def intro: clean_path.intros)

text \<open>What one wave of dirtying has done, for the loop and for the call.\<close>

lemma dirty_each_spec:
  assumes call: "\<And>x t t'. f x t = Some t' \<Longrightarrow>
             flags_only t t' \<and> \<not> clean (nodes t' x) \<and> dirty_post t t' \<and>
             (\<forall>y. clean (nodes t y) \<and> \<not> clean (nodes t' y) \<longrightarrow> clean_path t x y)"
    and run: "dirty_each f xs s = Some s'"
  shows "flags_only s s' \<and> (\<forall>x\<in>set xs. \<not> clean (nodes s' x)) \<and> dirty_post s s' \<and>
         (\<forall>y. clean (nodes s y) \<and> \<not> clean (nodes s' y) \<longrightarrow> (\<exists>x\<in>set xs. clean_path s x y))"
  using run
proof (induction xs arbitrary: s)
  case Nil
  then show ?case by (auto simp: flags_only_refl dirty_post_def)
next
  case (Cons z zs)
  from Cons.prems obtain t where t: "f z s = Some t" and rest: "dirty_each f zs t = Some s'"
    by (auto split: option.splits)
  note A = call [OF t]
  note B = Cons.IH [OF rest]
  have fo: "flags_only s s'" using A B flags_only_trans by blast
  have mono: "\<And>x. \<not> clean (nodes t x) \<Longrightarrow> \<not> clean (nodes s' x)"
    using B by (auto simp: flags_only_def)
  have same: "\<And>x. super (nodes t x) = super (nodes s x)"
    using A by (simp add: flags_only_def)
  have marked: "\<forall>x\<in>set (z # zs). \<not> clean (nodes s' x)"
    using A B mono by auto
  have closed: "dirty_post s s'"
    unfolding dirty_post_def
  proof (intro allI impI)
    fix x y
    assume h: "clean (nodes s x) \<and> \<not> clean (nodes s' x) \<and> y \<in> set (super (nodes s x))"
    show "\<not> clean (nodes s' y)"
    proof (cases "clean (nodes t x)")
      case True
      with h B same show ?thesis by (auto simp: dirty_post_def)
    next
      case False
      with h A have "\<not> clean (nodes t y)" by (auto simp: dirty_post_def)
      then show ?thesis by (rule mono)
    qed
  qed
  have reach: "\<forall>y. clean (nodes s y) \<and> \<not> clean (nodes s' y) \<longrightarrow> (\<exists>x\<in>set (z # zs). clean_path s x y)"
  proof (intro allI impI)
    fix y
    assume h: "clean (nodes s y) \<and> \<not> clean (nodes s' y)"
    show "\<exists>x\<in>set (z # zs). clean_path s x y"
    proof (cases "clean (nodes t y)")
      case True
      with h B obtain x where x: "x \<in> set zs" "clean_path t x y" by blast
      from A have "flags_only s t" by blast
      with x(2) have "clean_path s x y" by (rule clean_path_mono)
      with x(1) show ?thesis by auto
    next
      case False
      with h A show ?thesis by auto
    qed
  qed
  from fo marked closed reach show ?case by blast
qed

lemma adaptonDirty_spec:
  "adaptonDirty k a s = Some s' \<Longrightarrow>
     flags_only s s' \<and> \<not> clean (nodes s' a) \<and> dirty_post s s' \<and>
     (\<forall>y. clean (nodes s y) \<and> \<not> clean (nodes s' y) \<longrightarrow> clean_path s a y)"
proof (induction k arbitrary: a s s')
  case 0
  then show ?case by simp
next
  case (Suc k)
  show ?case
  proof (cases "clean (nodes s a)")
    case False
    with Suc.prems have "s' = s" by simp
    with False show ?thesis by (auto simp: flags_only_refl dirty_post_def)
  next
    case True
    define t where "t = upd a (\<lambda>n. n\<lparr>clean := False\<rparr>) s"
    from True Suc.prems have run: "dirty_each (adaptonDirty k) (super (nodes s a)) t = Some s'"
      by (simp add: t_def)
    have st: "flags_only s t" by (simp add: t_def flags_only_unclean)
    note B = dirty_each_spec [where f = "adaptonDirty k", OF Suc.IH run]
    have fo: "flags_only s s'" using st B flags_only_trans by blast
    have a: "\<not> clean (nodes s' a)"
      using B by (auto simp: flags_only_def t_def nodes_upd)
    have tc: "\<And>x. x \<noteq> a \<Longrightarrow> clean (nodes t x) = clean (nodes s x)"
      by (simp add: t_def nodes_upd)
    have ts: "\<And>x. super (nodes t x) = super (nodes s x)"
      by (simp add: t_def nodes_upd)
    have closed: "dirty_post s s'"
      unfolding dirty_post_def
    proof (intro allI impI)
      fix x y
      assume h: "clean (nodes s x) \<and> \<not> clean (nodes s' x) \<and> y \<in> set (super (nodes s x))"
      show "\<not> clean (nodes s' y)"
      proof (cases "x = a")
        case True
        with h B show ?thesis by auto
      next
        case False
        with h tc have "clean (nodes t x)" by simp
        moreover from h ts have "y \<in> set (super (nodes t x))" by simp
        moreover from B have "dirty_post t s'" by blast
        ultimately show ?thesis using h unfolding dirty_post_def by blast
      qed
    qed
    have reach: "\<forall>y. clean (nodes s y) \<and> \<not> clean (nodes s' y) \<longrightarrow> clean_path s a y"
    proof (intro allI impI)
      fix y
      assume h: "clean (nodes s y) \<and> \<not> clean (nodes s' y)"
      show "clean_path s a y"
      proof (cases "y = a")
        case True
        with h show ?thesis by (auto intro: clean_path.start)
      next
        case False
        with h tc have "clean (nodes t y) \<and> \<not> clean (nodes s' y)" by simp
        with B obtain x where x: "x \<in> set (super (nodes s a))" "clean_path t x y" by blast
        from x(2) st have p: "clean_path s x y" by (rule clean_path_mono)
        have "clean (nodes s x)"
          using p
          by (induction rule: clean_path.induct) auto
        with x(1) \<open>clean (nodes s a)\<close> have "clean_path s a x"
          by (auto intro: clean_path.intros)
        with p show ?thesis by (rule clean_path_trans)
      qed
    qed
    from fo a closed reach show ?thesis by blast
  qed
qed


text \<open>A wave returns once the fuel exceeds the number of clean nodes.\<close>

lemma flags_only_card:
  assumes "flags_only s t" and "finite {n. clean (nodes s n)}"
  shows "finite {n. clean (nodes t n)} \<and> card {n. clean (nodes t n)} \<le> card {n. clean (nodes s n)}"
proof -
  have "{n. clean (nodes t n)} \<subseteq> {n. clean (nodes s n)}"
    using assms(1) by (auto simp: flags_only_def)
  with assms(2) show ?thesis
    by (auto intro: finite_subset card_mono)
qed

lemma dirty_each_returns:
  assumes call: "\<And>x t. finite {n. clean (nodes t n)} \<Longrightarrow> card {n. clean (nodes t n)} < k
                   \<Longrightarrow> \<exists>t'. f x t = Some t' \<and> flags_only t t'"
    and "finite {n. clean (nodes s n)}" and "card {n. clean (nodes s n)} < k"
  shows "\<exists>s'. dirty_each f xs s = Some s'"
  using assms(2,3)
proof (induction xs arbitrary: s)
  case Nil
  show ?case by simp
next
  case (Cons z zs)
  from call [OF Cons.prems] obtain t where t: "f z s = Some t" "flags_only s t" by blast
  from flags_only_card [OF t(2) Cons.prems(1)] Cons.prems(2)
  have "finite {n. clean (nodes t n)}" "card {n. clean (nodes t n)} < k" by auto
  from Cons.IH [OF this] t(1) show ?case by simp
qed

lemma adaptonDirty_returns:
  "finite {n. clean (nodes s n)} \<Longrightarrow> card {n. clean (nodes s n)} < k
     \<Longrightarrow> \<exists>s'. adaptonDirty k a s = Some s'"
proof (induction k arbitrary: a s)
  case 0
  then show ?case by simp
next
  case (Suc k)
  show ?case
  proof (cases "clean (nodes s a)")
    case False
    then show ?thesis by simp
  next
    case True
    define t where "t = upd a (\<lambda>n. n\<lparr>clean := False\<rparr>) s"
    have eq: "{n. clean (nodes t n)} = {n. clean (nodes s n)} - {a}"
      by (auto simp: t_def nodes_upd)
    have fin: "finite {n. clean (nodes t n)}"
      using Suc.prems(1) by (simp add: eq)
    have "card {n. clean (nodes t n)} = card {n. clean (nodes s n)} - 1"
      using True Suc.prems(1) by (simp add: eq)
    moreover have "0 < card {n. clean (nodes s n)}"
      using True Suc.prems(1) by (auto simp: card_gt_0_iff)
    ultimately have less: "card {n. clean (nodes t n)} < k"
      using Suc.prems(2) by simp
    have call: "\<exists>u'. adaptonDirty k x u = Some u' \<and> flags_only u u'"
      if "finite {n. clean (nodes u n)}" "card {n. clean (nodes u n)} < k" for x u
      using Suc.IH [OF that] adaptonDirty_spec by blast
    from dirty_each_returns [where f = "adaptonDirty k", OF call fin less]
    show ?thesis using True by (simp add: t_def)
  qed
qed

lemma dirty_marks_clean_paths:
  assumes "adaptonDirty k a s = Some s'"
  shows "clean (nodes s' x) \<longleftrightarrow> clean (nodes s x) \<and> \<not> clean_path s a x"
proof -
  note S = adaptonDirty_spec [OF assms]
  have marked: "\<not> clean (nodes s' y)" if "clean_path s a y" for y
    using that
  proof (induction rule: clean_path.induct)
    case start
    from S show ?case by blast
  next
    case (step x y)
    from step.hyps(1) have "clean (nodes s x)" by (rule clean_path_clean)
    with step S show ?case unfolding dirty_post_def by blast
  qed
  from S have "clean (nodes s' x) \<Longrightarrow> clean (nodes s x)"
    by (simp add: flags_only_def)
  with marked S show ?thesis by blast
qed

lemma clean_path_super_path: "clean_path s a x \<Longrightarrow> super_path s a x"
  by (induction rule: clean_path.induct) (auto intro: super_path.intros)

lemma super_path_clean_path:
  assumes closed: "\<forall>x y. y \<in> set (super (nodes s x)) \<and> \<not> clean (nodes s x) \<longrightarrow> \<not> clean (nodes s y)"
    and "super_path s a x" and "clean (nodes s x)"
  shows "clean_path s a x"
  using assms(2,3)
proof (induction rule: super_path.induct)
  case here
  then show ?case by (rule clean_path.start)
next
  case (up x y)
  with closed have "clean (nodes s x)" by blast
  with up show ?case by (auto intro: clean_path.step)
qed

text \<open>
  C4, as the code has it.  \<open>adaptonDirty\<close> returns at once on a node that is already
  dirty, so a wave stops where it meets a dirty node.  On a store whose clean nodes are
  all allocated, \<open>adaptonDirty a\<close> returns; it changes \<open>clean\<close> flags only (no thunk,
  result, edge or context: no computation has run); and the nodes that are clean afterwards
  are the nodes that were clean and are not reached from \<open>a\<close> along \<open>super\<close> edges through
  clean nodes.  Where every dependent of a dirty node is dirty, these are the nodes not
  reached from \<open>a\<close> along \<open>super\<close> edges at all, which is the claim as the spec words it.
\<close>

theorem dirty_propagation:
  assumes alloc: "\<forall>x. clean (nodes s x) \<longrightarrow> x < fresh_addr s"
    and fuel: "fresh_addr s < k"
  shows "\<exists>s'. adaptonDirty k a s = Some s' \<and> flags_only s s' \<and>
           (\<forall>x. clean (nodes s' x) \<longleftrightarrow> clean (nodes s x) \<and> \<not> clean_path s a x) \<and>
           ((\<forall>x y. y \<in> set (super (nodes s x)) \<and> \<not> clean (nodes s x) \<longrightarrow> \<not> clean (nodes s y))
              \<longrightarrow> (\<forall>x. clean (nodes s' x) \<longleftrightarrow> clean (nodes s x) \<and> \<not> super_path s a x))"
proof -
  have sub: "{n. clean (nodes s n)} \<subseteq> {..<fresh_addr s}"
    using alloc by auto
  then have fin: "finite {n. clean (nodes s n)}"
    by (rule finite_subset) simp
  have "card {n. clean (nodes s n)} \<le> card {..<fresh_addr s}"
    using sub by (intro card_mono) simp_all
  with fuel have "card {n. clean (nodes s n)} < k" by simp
  from adaptonDirty_returns [OF fin this] obtain s' where run: "adaptonDirty k a s = Some s'"
    by blast
  have fo: "flags_only s s'"
    using adaptonDirty_spec [OF run] by blast
  have exact: "\<forall>x. clean (nodes s' x) \<longleftrightarrow> clean (nodes s x) \<and> \<not> clean_path s a x"
    using dirty_marks_clean_paths [OF run] by blast
  have "clean (nodes s' x) \<longleftrightarrow> clean (nodes s x) \<and> \<not> super_path s a x"
    if closed: "\<forall>x y. y \<in> set (super (nodes s x)) \<and> \<not> clean (nodes s x) \<longrightarrow> \<not> clean (nodes s y)"
    for x
    using exact clean_path_super_path super_path_clean_path [OF closed] by blast
  with run fo exact show ?thesis by blast
qed

theorem dirty_propagation_witness:
  "\<exists>s'. adaptonDirty 3 0 world_B1 = Some s' \<and> flags_only world_B1 s' \<and>
        \<not> clean (nodes s' 0) \<and> \<not> clean (nodes s' 1) \<and> result (nodes s' 1) = Num 8"
proof -
  have alloc: "\<forall>x. clean (nodes world_B1 x) \<longrightarrow> x < fresh_addr world_B1"
    by (simp add: world_B1_nodes world_B1_rest blank_def)
  have fuel: "fresh_addr world_B1 < 3"
    by (simp add: world_B1_rest)
  have p0: "clean_path world_B1 0 0"
    by (rule clean_path.start) (simp add: world_B1_nodes)
  have p1: "clean_path world_B1 0 1"
    by (rule clean_path.step [OF p0]) (simp_all add: world_B1_nodes)
  from dirty_propagation [OF alloc fuel, of 0] obtain s' where
    s': "adaptonDirty 3 0 world_B1 = Some s'" "flags_only world_B1 s'"
      "\<forall>x. clean (nodes s' x) \<longleftrightarrow> clean (nodes world_B1 x) \<and> \<not> clean_path world_B1 0 x"
    by blast
  from s'(2) have "result (nodes s' 1) = Num 8"
    by (simp add: flags_only_def world_B1_nodes)
  with s' p0 p1 show ?thesis by blast
qed

text \<open>
  A wave that starts at a dirty node goes nowhere: in \<open>world_D\<close> the ref cell \<open>d\<close> is a
  dependent of the dirty thunk \<open>c\<close>, and \<open>adaptonDirty(c)\<close> returns the store as it was,
  \<open>d\<close> still clean.
\<close>

theorem dirty_stops_at_dirty_node:
  "adaptonDirty 3 0 world_D = Some world_D \<and> 1 \<in> set (super (nodes world_D 0)) \<and>
   clean (nodes world_D 1)"
proof -
  have "\<not> clean (nodes world_D 0)"
    by (simp add: world_D_nodes)
  then have "adaptonDirty (Suc (Suc (Suc 0))) 0 world_D = Some world_D"
    by simp
  then show ?thesis
    by (simp add: world_D_nodes numeral_3_eq_3)
qed

section \<open>Edge symmetry, the thunks and the context across a call\<close>

lemma engine_frame_refl: "engine_frame s s"
  by (simp add: engine_frame_def)

lemma engine_frame_trans: "engine_frame s t \<Longrightarrow> engine_frame t u \<Longrightarrow> engine_frame s u"
  by (simp add: engine_frame_def)

lemma edge_symmetry_addEdge: "edge_symmetry s \<Longrightarrow> edge_symmetry (addEdge c a s)"
  unfolding edge_symmetry_def
  by (auto simp: addEdge_sub addEdge_super set_set_add)

lemma edge_symmetry_deleteEdge: "edge_symmetry s \<Longrightarrow> edge_symmetry (deleteEdge c a s)"
  unfolding edge_symmetry_def
  by (auto simp: deleteEdge_sub deleteEdge_super set_set_delete)

lemma edge_symmetry_fold_deleteEdge:
  "edge_symmetry s \<Longrightarrow> edge_symmetry (fold (deleteEdge a) xs s)"
  by (induction xs arbitrary: s) (simp_all add: edge_symmetry_deleteEdge)

lemma edge_symmetry_flags_only: "flags_only s s' \<Longrightarrow> edge_symmetry s \<Longrightarrow> edge_symmetry s'"
  by (simp add: edge_symmetry_def flags_only_def)

lemma upd_clean_fields:
  "thunk (nodes (upd a (\<lambda>n. n\<lparr>clean := b\<rparr>) s) x) = thunk (nodes s x)"
  "result (nodes (upd a (\<lambda>n. n\<lparr>clean := b\<rparr>) s) x) = result (nodes s x)"
  "sub (nodes (upd a (\<lambda>n. n\<lparr>clean := b\<rparr>) s) x) = sub (nodes s x)"
  "super (nodes (upd a (\<lambda>n. n\<lparr>clean := b\<rparr>) s) x) = super (nodes s x)"
  "clean (nodes (upd a (\<lambda>n. n\<lparr>clean := b\<rparr>) s) x) = (if x = a then b else clean (nodes s x))"
  by (simp_all add: nodes_upd)

lemma upd_result_fields:
  "thunk (nodes (upd a (\<lambda>n. n\<lparr>result := v\<rparr>) s) x) = thunk (nodes s x)"
  "result (nodes (upd a (\<lambda>n. n\<lparr>result := v\<rparr>) s) x) = (if x = a then v else result (nodes s x))"
  "sub (nodes (upd a (\<lambda>n. n\<lparr>result := v\<rparr>) s) x) = sub (nodes s x)"
  "super (nodes (upd a (\<lambda>n. n\<lparr>result := v\<rparr>) s) x) = super (nodes s x)"
  "clean (nodes (upd a (\<lambda>n. n\<lparr>result := v\<rparr>) s) x) = clean (nodes s x)"
  by (simp_all add: nodes_upd)

lemma prepare_fields:
  "thunk (nodes (prepare a s) x) = thunk (nodes s x)"
  "result (nodes (prepare a s) x) = result (nodes s x)"
  "clean (nodes (prepare a s) x) = (if x = a then True else clean (nodes s x))"
  "fresh_addr (prepare a s) = fresh_addr s"
  "currentlyAdapting (prepare a s) = currentlyAdapting s"
  by (simp_all add: prepare_def upd_clean_fields fresh_addr_upd ctx_upd fold_deleteEdge_fields)

lemma prepare_sub:
  "sub (nodes (prepare a s) x) = (if x = a then [] else sub (nodes s x))"
  by (simp add: prepare_def upd_clean_fields fold_deleteEdge_sub)

lemma prepare_super:
  "super (nodes (prepare a s) y) =
     (if y \<in> set (sub (nodes s a)) then removeAll a (super (nodes s y)) else super (nodes s y))"
  by (simp add: prepare_def upd_clean_fields fold_deleteEdge_super)

lemma leave_fields:
  "thunk (nodes (leave prev a s) x) = thunk (nodes s x)"
  "result (nodes (leave prev a s) x) = result (nodes s x)"
  "clean (nodes (leave prev a s) x) = clean (nodes s x)"
  "fresh_addr (leave prev a s) = fresh_addr s"
  "currentlyAdapting (leave prev a s) = prev"
  by (cases prev; simp add: leave_def addEdge_fields)+

lemma leave_sub:
  "sub (nodes (leave prev a s) x) =
     (if prev = Some x then set_add a (sub (nodes s x)) else sub (nodes s x))"
  by (cases prev) (auto simp: leave_def addEdge_sub)

lemma leave_super:
  "super (nodes (leave prev a s) y) =
     (case prev of None \<Rightarrow> super (nodes s y)
      | Some c \<Rightarrow> if y = a then set_add c (super (nodes s y)) else super (nodes s y))"
  by (cases prev) (auto simp: leave_def addEdge_super)

lemma edge_symmetry_upd_clean: "edge_symmetry (upd a (\<lambda>n. n\<lparr>clean := b\<rparr>) s) = edge_symmetry s"
  by (simp add: edge_symmetry_def upd_clean_fields)

lemma edge_symmetry_upd_result: "edge_symmetry (upd a (\<lambda>n. n\<lparr>result := v\<rparr>) s) = edge_symmetry s"
  by (simp add: edge_symmetry_def upd_result_fields)

lemma edge_symmetry_ctx: "edge_symmetry (s\<lparr>currentlyAdapting := c\<rparr>) = edge_symmetry s"
  by (simp add: edge_symmetry_def)

lemma engine_frame_addEdge: "engine_frame s (addEdge c a s)"
  by (simp add: engine_frame_def addEdge_fields edge_symmetry_addEdge)

lemma engine_frame_prepare: "engine_frame s (prepare a s)"
  by (simp add: engine_frame_def prepare_fields)
     (simp add: prepare_def edge_symmetry_upd_clean edge_symmetry_fold_deleteEdge)

lemma engine_frame_result: "engine_frame s (upd a (\<lambda>n. n\<lparr>result := v\<rparr>) s)"
  by (simp add: engine_frame_def edge_symmetry_upd_result upd_result_fields fresh_addr_upd)

lemma engine_frame_ctx: "engine_frame s (s\<lparr>currentlyAdapting := c\<rparr>)"
  by (simp add: engine_frame_def edge_symmetry_ctx)

lemma engine_frame_leave: "engine_frame s (leave prev a s)"
  by (cases prev)
     (auto simp: leave_def intro: engine_frame_ctx engine_frame_addEdge engine_frame_trans)

lemma engine_frame_flags_only: "flags_only s s' \<Longrightarrow> engine_frame s s'"
  using edge_symmetry_flags_only by (auto simp: engine_frame_def flags_only_def)

lemma engine_frame_dirty: "adaptonDirty k a s = Some s' \<Longrightarrow> engine_frame s s'"
  using adaptonDirty_spec engine_frame_flags_only by blast

lemma engine_frame_refSet: "adaptonRefSet k a v s = Some s' \<Longrightarrow> engine_frame s s'"
  unfolding adaptonRefSet_def
  using engine_frame_dirty engine_frame_result engine_frame_trans by blast

lemma engine_frame_all:
  "(\<forall>k self e s r s'. eval k self e s = Some (r, s') \<longrightarrow> engine_frame s s') \<and>
   (\<forall>k a s r s'. adaptonCompute k a s = Some (r, s') \<longrightarrow> engine_frame s s') \<and>
   (\<forall>k a s r s'. adaptonForce k a s = Some (r, s') \<longrightarrow> engine_frame s s')"
  by (rule run_induct [where P = "\<lambda>self e s r s'. engine_frame s s'"
                         and C = "\<lambda>a s r s'. engine_frame s s'"
                         and F = "\<lambda>a s r s'. engine_frame s s'"])
     (blast intro: engine_frame_refl engine_frame_trans engine_frame_addEdge engine_frame_prepare
        engine_frame_result engine_frame_ctx engine_frame_leave engine_frame_refSet)+


section \<open>What a read-only computation leaves alone\<close>

lemma settled_refl: "settled s s"
  by (simp add: settled_def)

lemma settled_trans: "settled s t \<Longrightarrow> settled t u \<Longrightarrow> settled s u"
  by (simp add: settled_def)

lemma settled_read_only: "settled s t \<Longrightarrow> read_only s \<Longrightarrow> read_only t"
  by (simp add: settled_def read_only_def)

lemma settled_addEdge: "settled s (addEdge c a s)"
  by (simp add: settled_def addEdge_fields addEdge_super set_set_add)

lemma settled_ctx: "settled s (s\<lparr>currentlyAdapting := c\<rparr>)"
  by (simp add: settled_def)

lemma settled_leave: "settled s (leave prev a s)"
  by (cases prev) (auto simp: settled_def leave_fields leave_super set_set_add)

lemma settled_prepare: "\<not> clean (nodes s a) \<Longrightarrow> settled s (prepare a s)"
  by (auto simp: settled_def prepare_fields prepare_super)

lemma settled_store:
  assumes dirty: "\<not> clean (nodes s a)"
    and run: "eval k a (thunk (nodes (prepare a s) a)) (prepare a s) = Some (Returned v, s3)"
    and body: "settled (prepare a s) s3"
  shows "settled s (upd a (\<lambda>n. n\<lparr>result := v\<rparr>) s3)"
proof -
  have mid: "settled s s3"
    using settled_prepare [OF dirty] body by (rule settled_trans)
  have own: "v = result (nodes s a)" if "thunk (nodes s a) = SelfResult"
    using run that by (simp add: prepare_fields)
  show ?thesis
    using mid dirty own
    by (auto simp: settled_def upd_result_fields)
qed

lemma settled_all:
  "(\<forall>k self e s r s'. eval k self e s = Some (r, s') \<longrightarrow>
       (no_refset e \<and> read_only s \<longrightarrow> settled s s')) \<and>
   (\<forall>k a s r s'. adaptonCompute k a s = Some (r, s') \<longrightarrow> (read_only s \<longrightarrow> settled s s')) \<and>
   (\<forall>k a s r s'. adaptonForce k a s = Some (r, s') \<longrightarrow> (read_only s \<longrightarrow> settled s s'))"
proof (rule run_induct [where P = "\<lambda>self e s r s'. no_refset e \<and> read_only s \<longrightarrow> settled s s'"
                         and C = "\<lambda>a s r s'. read_only s \<longrightarrow> settled s s'"
                         and F = "\<lambda>a s r s'. read_only s \<longrightarrow> settled s s'"],
       goal_cases)
  case (21 k a s ex s3)
  show ?case
  proof
    assume ro: "read_only s"
    have p: "settled s (prepare a s)" using 21(1) by (rule settled_prepare)
    from p ro have "read_only (prepare a s)" by (rule settled_read_only)
    moreover from ro have "no_refset (thunk (nodes (prepare a s) a))"
      by (simp add: read_only_def prepare_fields)
    ultimately have "settled (prepare a s) s3" using 21(3) by blast
    with p show "settled s s3" by (rule settled_trans)
  qed
next
  case (22 k a s v s3 r s')
  show ?case
  proof
    assume ro: "read_only s"
    have p: "settled s (prepare a s)" using 22(1) by (rule settled_prepare)
    from p ro have "read_only (prepare a s)" by (rule settled_read_only)
    moreover from ro have "no_refset (thunk (nodes (prepare a s) a))"
      by (simp add: read_only_def prepare_fields)
    ultimately have "settled (prepare a s) s3" using 22(3) by blast
    from settled_store [OF 22(1) 22(2) this]
    have st: "settled s (upd a (\<lambda>n. n\<lparr>result := v\<rparr>) s3)" .
    from st ro have "read_only (upd a (\<lambda>n. n\<lparr>result := v\<rparr>) s3)" by (rule settled_read_only)
    with 22(5) have "settled (upd a (\<lambda>n. n\<lparr>result := v\<rparr>) s3) s'" by blast
    with st show "settled s s'" by (rule settled_trans)
  qed
next
  case (23 k a s ex s1)
  show ?case
  proof
    assume ro: "read_only s"
    then have "read_only (s\<lparr>currentlyAdapting := Some a\<rparr>)" by (simp add: read_only_def)
    with 23(2) have "settled (s\<lparr>currentlyAdapting := Some a\<rparr>) s1" by blast
    with settled_ctx show "settled s s1" by (rule settled_trans)
  qed
next
  case (24 k a s v s1)
  show ?case
  proof
    assume ro: "read_only s"
    then have "read_only (s\<lparr>currentlyAdapting := Some a\<rparr>)" by (simp add: read_only_def)
    with 24(2) have "settled (s\<lparr>currentlyAdapting := Some a\<rparr>) s1" by blast
    with settled_ctx have "settled s s1" by (rule settled_trans)
    then show "settled s (leave (currentlyAdapting s) a s1)"
      using settled_leave by (rule settled_trans)
  qed
qed (auto intro: settled_refl settled_addEdge settled_trans dest: settled_read_only)

section \<open>Edge symmetry\<close>

lemma edge_symmetry_makeAthunk:
  assumes "edge_symmetry s" and "unused_addr (fresh_addr s) s"
  shows "edge_symmetry (snd (makeAthunk t s))"
  using assms
  by (auto simp: edge_symmetry_def unused_addr_def makeAthunk_def Let_def)

lemma edge_symmetry_adaptonRef:
  assumes "edge_symmetry s" and "unused_addr (fresh_addr s) s"
  shows "edge_symmetry (snd (adaptonRef v s))"
proof -
  have "edge_symmetry (snd (makeAthunk SelfResult s))"
    using assms by (rule edge_symmetry_makeAthunk)
  then show ?thesis
    by (simp add: adaptonRef_def makeAthunk_def Let_def edge_symmetry_upd_clean
        edge_symmetry_upd_result)
qed

text \<open>
  C3. Edge symmetry is an invariant of every operation.  \<open>addEdge\<close> and \<open>deleteEdge\<close>
  change both sides together (the member is in both sets after \<open>addEdge\<close> and in neither
  after \<open>deleteEdge\<close>), so they keep the invariant; \<open>adaptonDirty\<close> and \<open>adaptonRefSet\<close>
  touch no edge; \<open>adaptonCompute\<close> and \<open>adaptonForce\<close> keep it whatever the thunks do
  and also when the call ends in an exception; the two constructors keep it, the new node
  being a member of no set.
\<close>

theorem edge_symmetry_invariant:
  assumes sym: "edge_symmetry s"
  shows "edge_symmetry (addEdge x y s) \<and> edge_symmetry (deleteEdge x y s) \<and>
         y \<in> set (sub (nodes (addEdge x y s) x)) \<and> x \<in> set (super (nodes (addEdge x y s) y)) \<and>
         y \<notin> set (sub (nodes (deleteEdge x y s) x)) \<and>
         x \<notin> set (super (nodes (deleteEdge x y s) y)) \<and>
         (\<forall>k a s'. adaptonDirty k a s = Some s' \<longrightarrow> edge_symmetry s') \<and>
         (\<forall>k a v s'. adaptonRefSet k a v s = Some s' \<longrightarrow> edge_symmetry s') \<and>
         (\<forall>k a r s'. adaptonCompute k a s = Some (r, s') \<longrightarrow> edge_symmetry s') \<and>
         (\<forall>k a r s'. adaptonForce k a s = Some (r, s') \<longrightarrow> edge_symmetry s') \<and>
         (unused_addr (fresh_addr s) s \<longrightarrow>
            edge_symmetry (snd (makeAthunk t s)) \<and> edge_symmetry (snd (adaptonRef v s)))"
proof -
  have edges: "edge_symmetry (addEdge x y s) \<and> edge_symmetry (deleteEdge x y s)"
    using sym by (simp add: edge_symmetry_addEdge edge_symmetry_deleteEdge)
  have both: "y \<in> set (sub (nodes (addEdge x y s) x)) \<and> x \<in> set (super (nodes (addEdge x y s) y)) \<and>
              y \<notin> set (sub (nodes (deleteEdge x y s) x)) \<and>
              x \<notin> set (super (nodes (deleteEdge x y s) y))"
    by (simp add: addEdge_sub addEdge_super deleteEdge_sub deleteEdge_super set_set_add
        set_set_delete)
  have dirty: "\<forall>k a s'. adaptonDirty k a s = Some s' \<longrightarrow> edge_symmetry s'"
    using sym engine_frame_dirty by (auto simp: engine_frame_def)
  have refset: "\<forall>k a v s'. adaptonRefSet k a v s = Some s' \<longrightarrow> edge_symmetry s'"
    using sym engine_frame_refSet by (auto simp: engine_frame_def)
  have compute: "\<forall>k a r s'. adaptonCompute k a s = Some (r, s') \<longrightarrow> edge_symmetry s'"
    using sym engine_frame_all by (auto simp: engine_frame_def)
  have force: "\<forall>k a r s'. adaptonForce k a s = Some (r, s') \<longrightarrow> edge_symmetry s'"
    using sym engine_frame_all by (auto simp: engine_frame_def)
  have alloc: "unused_addr (fresh_addr s) s \<longrightarrow>
            edge_symmetry (snd (makeAthunk t s)) \<and> edge_symmetry (snd (adaptonRef v s))"
    using sym edge_symmetry_makeAthunk edge_symmetry_adaptonRef by blast
  from edges both dirty refset compute force alloc show ?thesis by blast
qed

lemma world_B2_sym: "edge_symmetry world_B2"
  by (auto simp: edge_symmetry_def world_B2_nodes blank_def split: if_splits)

lemma world_B2_force:
  "\<exists>s'. adaptonForce 4 1 world_B2 = Some (Returned (Num 5), s') \<and> sub (nodes s' 1) = [0]
     \<and> super (nodes s' 0) = [1]"
  by (simp add: world_B2_def world_B1_def world_B_def engine_defs four_fuel three_fuel)

theorem edge_symmetry_invariant_witness:
  "edge_symmetry world_B2 \<and> edge_symmetry (addEdge 1 0 world_B2) \<and>
   edge_symmetry (deleteEdge 1 0 world_B2) \<and>
   edge_symmetry (snd (makeAthunk (Force 1) world_B2)) \<and>
   (\<exists>s'. adaptonForce 4 1 world_B2 = Some (Returned (Num 5), s') \<and> edge_symmetry s')"
proof -
  have unused: "unused_addr (fresh_addr world_B2) world_B2"
    by (simp add: unused_addr_def world_B2_nodes world_B2_rest blank_def)
  from world_B2_force obtain s' where
    run: "adaptonForce 4 1 world_B2 = Some (Returned (Num 5), s')" by blast
  note T = edge_symmetry_invariant [OF world_B2_sym, of 1 0 "Force 1" Undefined]
  from T run have "edge_symmetry s'" by blast
  with T unused run world_B2_sym show ?thesis by blast
qed

section \<open>Recomputing a dirty node\<close>

text \<open>
  C5. On a dirty node \<open>adaptonCompute\<close> is: the thunk run in the state \<open>prepare a s\<close>, then
  the result stored, then \<open>adaptonCompute\<close> again on the same node, whose answer is the
  answer (an exception of the thunk ends the call at once).  In \<open>prepare a s\<close> the node has
  no dependency left and is in the \<open>super\<close> set of none of its former dependencies, no other
  edge has changed, and the \<open>clean\<close> flag is already true.
\<close>

theorem compute_dirty_steps:
  assumes "\<not> clean (nodes s a)"
  shows "adaptonCompute (Suc k) a s =
           (case eval k a (thunk (nodes s a)) (prepare a s) of
              None \<Rightarrow> None
            | Some (Thrown ex, s3) \<Rightarrow> Some (Thrown ex, s3)
            | Some (Returned v, s3) \<Rightarrow> adaptonCompute k a (upd a (\<lambda>n. n\<lparr>result := v\<rparr>) s3)) \<and>
         clean (nodes (prepare a s) a) \<and> sub (nodes (prepare a s) a) = [] \<and>
         (\<forall>y\<in>set (sub (nodes s a)). a \<notin> set (super (nodes (prepare a s) y))) \<and>
         (\<forall>x. x \<noteq> a \<longrightarrow> sub (nodes (prepare a s) x) = sub (nodes s x)) \<and>
         (\<forall>y. y \<notin> set (sub (nodes s a)) \<longrightarrow> super (nodes (prepare a s) y) = super (nodes s y)) \<and>
         (\<forall>x. result (nodes (prepare a s) x) = result (nodes s x)) \<and>
         result (nodes (upd a (\<lambda>n. n\<lparr>result := v\<rparr>) s3) a) = v"
  using assms
  by (simp add: compute_dirty_unfold prepare_fields prepare_sub prepare_super upd_result_fields
      del: adaptonCompute.simps)

lemma world_W_first_run:
  "\<exists>s3. eval 4 1 (thunk (nodes (world_W\<lparr>currentlyAdapting := Some 1\<rparr>) 1))
           (prepare 1 (world_W\<lparr>currentlyAdapting := Some 1\<rparr>)) = Some (Returned (Num 5), s3)"
  by (simp add: world_W_def prepare_def engine_defs four_fuel three_fuel)

lemma world_W_compute:
  "\<exists>s'. adaptonCompute 5 1 (world_W\<lparr>currentlyAdapting := Some 1\<rparr>) = Some (Returned (Num 0), s')"
  by (simp add: world_W_def engine_defs five_fuel)

theorem compute_dirty_steps_witness:
  "\<not> clean (nodes (world_W\<lparr>currentlyAdapting := Some 1\<rparr>) 1) \<and>
   (\<exists>s3. eval 4 1 (thunk (nodes (world_W\<lparr>currentlyAdapting := Some 1\<rparr>) 1))
           (prepare 1 (world_W\<lparr>currentlyAdapting := Some 1\<rparr>)) = Some (Returned (Num 5), s3) \<and>
         adaptonCompute (Suc 4) 1 (world_W\<lparr>currentlyAdapting := Some 1\<rparr>) =
           adaptonCompute 4 1 (upd 1 (\<lambda>n. n\<lparr>result := Num 5\<rparr>) s3)) \<and>
   (\<exists>s'. adaptonCompute (Suc 4) 1 (world_W\<lparr>currentlyAdapting := Some 1\<rparr>) =
           Some (Returned (Num 0), s'))"
proof -
  let ?w = "world_W\<lparr>currentlyAdapting := Some 1\<rparr>"
  have d: "\<not> clean (nodes ?w 1)"
    by (simp add: world_W_nodes)
  from world_W_first_run obtain s3 where
    run: "eval 4 1 (thunk (nodes ?w 1)) (prepare 1 ?w) = Some (Returned (Num 5), s3)" by blast
  from compute_dirty_steps [OF d, of 4] run
  have "adaptonCompute (Suc 4) 1 ?w = adaptonCompute 4 1 (upd 1 (\<lambda>n. n\<lparr>result := Num 5\<rparr>) s3)"
    by simp
  moreover from world_W_compute
  have "\<exists>s'. adaptonCompute (Suc 4) 1 ?w = Some (Returned (Num 0), s')"
    by simp
  ultimately show ?thesis using d run by blast
qed

section \<open>The tracked read\<close>

lemma force_chain:
  assumes distinct: "a \<noteq> b" "b \<noteq> c" "a \<noteq> c"
    and flags: "\<not> clean (nodes s a)" "\<not> clean (nodes s b)" "clean (nodes s c)"
    and thunks: "thunk (nodes s a) = Force b" "thunk (nodes s b) = Force c"
  shows "\<exists>s'. adaptonForce (Suc (Suc (Suc k))) a s = Some (Returned (result (nodes s c)), s') \<and>
           currentlyAdapting s' = currentlyAdapting s \<and>
           b \<in> set (sub (nodes s' a)) \<and> c \<in> set (sub (nodes s' b)) \<and>
           c \<notin> set (sub (nodes s' a)) \<and>
           a \<in> set (super (nodes s' b)) \<and> b \<in> set (super (nodes s' c)) \<and>
           (currentlyAdapting s = None \<longrightarrow> sub (nodes s' a) = [b] \<and> sub (nodes s' b) = [c])"
proof -
  define sA where "sA = prepare a (s\<lparr>currentlyAdapting := Some a\<rparr>)"
  define sB where "sB = prepare b (sA\<lparr>currentlyAdapting := Some b\<rparr>)"
  define sB2 where "sB2 = leave (Some b) c (sB\<lparr>currentlyAdapting := Some c\<rparr>)"
  define sB3 where "sB3 = upd b (\<lambda>n. n\<lparr>result := result (nodes s c)\<rparr>) sB2"
  define sA2 where "sA2 = leave (Some a) b sB3"
  define sA3 where "sA3 = upd a (\<lambda>n. n\<lparr>result := result (nodes s c)\<rparr>) sA2"
  define s' where "s' = leave (currentlyAdapting s) a sA3"
  have cC: "adaptonCompute (Suc k) c (sB\<lparr>currentlyAdapting := Some c\<rparr>) =
              Some (Returned (result (nodes s c)), sB\<lparr>currentlyAdapting := Some c\<rparr>)"
    using distinct flags by (simp add: sB_def sA_def prepare_fields)
  have fC: "adaptonForce (Suc k) c sB = Some (Returned (result (nodes s c)), sB2)"
    by (simp only: force_unfold cC) (simp add: sB2_def sB_def prepare_fields)
  have cB3: "adaptonCompute (Suc k) b sB3 = Some (Returned (result (nodes s c)), sB3)"
    by (simp add: sB3_def sB2_def sB_def upd_result_fields leave_fields prepare_fields)
  have dB: "\<not> clean (nodes (sA\<lparr>currentlyAdapting := Some b\<rparr>) b)"
    using distinct flags by (simp add: sA_def prepare_fields)
  have tB: "thunk (nodes (prepare b (sA\<lparr>currentlyAdapting := Some b\<rparr>)) b) = Force c"
    using thunks by (simp add: sA_def prepare_fields)
  have cB: "adaptonCompute (Suc (Suc k)) b (sA\<lparr>currentlyAdapting := Some b\<rparr>) =
              Some (Returned (result (nodes s c)), sB3)"
  proof -
    have "adaptonCompute (Suc (Suc k)) b (sA\<lparr>currentlyAdapting := Some b\<rparr>) =
            (case adaptonForce (Suc k) c sB of
               None \<Rightarrow> None
             | Some (Thrown ex, s3) \<Rightarrow> Some (Thrown ex, s3)
             | Some (Returned v, s3) \<Rightarrow>
                 adaptonCompute (Suc k) b (upd b (\<lambda>n. n\<lparr>result := v\<rparr>) s3))"
      unfolding sB_def by (simp only: compute_dirty_unfold [OF dB] tB eval.simps)
    then show ?thesis
      by (simp add: fC sB3_def [symmetric] cB3 del: adaptonForce.simps adaptonCompute.simps)
  qed
  have fB: "adaptonForce (Suc (Suc k)) b sA = Some (Returned (result (nodes s c)), sA2)"
    by (simp only: force_unfold cB) (simp add: sA2_def sA_def prepare_fields)
  have cA3: "adaptonCompute (Suc (Suc k)) a sA3 = Some (Returned (result (nodes s c)), sA3)"
    using distinct
    by (simp add: sA3_def sA2_def sB3_def sB2_def sB_def sA_def upd_result_fields leave_fields
        prepare_fields)
  have dA: "\<not> clean (nodes (s\<lparr>currentlyAdapting := Some a\<rparr>) a)"
    using flags by simp
  have tA: "thunk (nodes (prepare a (s\<lparr>currentlyAdapting := Some a\<rparr>)) a) = Force b"
    using thunks by (simp add: prepare_fields)
  have cA: "adaptonCompute (Suc (Suc (Suc k))) a (s\<lparr>currentlyAdapting := Some a\<rparr>) =
              Some (Returned (result (nodes s c)), sA3)"
  proof -
    have "adaptonCompute (Suc (Suc (Suc k))) a (s\<lparr>currentlyAdapting := Some a\<rparr>) =
            (case adaptonForce (Suc (Suc k)) b sA of
               None \<Rightarrow> None
             | Some (Thrown ex, s3) \<Rightarrow> Some (Thrown ex, s3)
             | Some (Returned v, s3) \<Rightarrow>
                 adaptonCompute (Suc (Suc k)) a (upd a (\<lambda>n. n\<lparr>result := v\<rparr>) s3))"
      unfolding sA_def by (simp only: compute_dirty_unfold [OF dA] tA eval.simps)
    then show ?thesis
      by (simp add: fB sA3_def [symmetric] cA3 del: adaptonForce.simps adaptonCompute.simps)
  qed
  have fA: "adaptonForce (Suc (Suc (Suc k))) a s = Some (Returned (result (nodes s c)), s')"
    by (simp only: force_unfold cA) (simp add: s'_def)
  have ctx: "currentlyAdapting s' = currentlyAdapting s"
    by (simp add: s'_def leave_fields)
  have subA3: "sub (nodes sA3 a) = [b]"
    using distinct
    by (simp add: sA3_def sA2_def sB3_def sB2_def sB_def sA_def upd_result_fields leave_sub
        prepare_sub set_add_def)
  have subB3: "sub (nodes sA3 b) = [c]"
    using distinct
    by (simp add: sA3_def sA2_def sB3_def sB2_def sB_def sA_def upd_result_fields leave_sub
        prepare_sub set_add_def)
  have subA: "set (sub (nodes s' a)) \<subseteq> {a, b} \<and> b \<in> set (sub (nodes s' a)) \<and>
              (currentlyAdapting s = None \<longrightarrow> sub (nodes s' a) = [b])"
    using subA3 by (auto simp: s'_def leave_sub set_set_add)
  have subB: "c \<in> set (sub (nodes s' b)) \<and>
              (currentlyAdapting s = None \<longrightarrow> sub (nodes s' b) = [c])"
    using subB3 by (auto simp: s'_def leave_sub set_set_add)
  have supB: "a \<in> set (super (nodes s' b))"
    using distinct
    by (cases "currentlyAdapting s")
       (simp_all add: s'_def sA3_def sA2_def upd_result_fields leave_super set_set_add)
  have supC: "b \<in> set (super (nodes s' c))"
    using distinct
    by (cases "currentlyAdapting s")
       (simp_all add: s'_def sA3_def sA2_def sB3_def sB2_def upd_result_fields leave_super
          set_set_add)
  from fA ctx subA subB supB supC distinct show ?thesis by auto
qed

text \<open>
  C6. \<open>adaptonForce(a)\<close> runs \<open>adaptonCompute(a)\<close> with the context set to \<open>a\<close>; when that
  returns, the state it hands back is \<open>leave prev a s1\<close> for the saved context \<open>prev\<close>: the
  context is \<open>prev\<close> again, the edge from \<open>prev\<close> to \<open>a\<close> is there when \<open>prev\<close> is a node,
  and no node has changed when \<open>prev\<close> is null.  For a chain (a dirty \<open>a\<close> whose thunk forces
  a dirty \<open>b\<close> whose thunk forces a clean \<open>c\<close>) the read returns the value of \<open>c\<close>, leaves
  the context as the caller had it, and has recorded \<open>b\<close> as a dependency of \<open>a\<close> and \<open>c\<close> as
  a dependency of \<open>b\<close>, not \<open>c\<close> as one of \<open>a\<close>.
\<close>

theorem force_records_dependency:
  "adaptonForce k a s =
     (case adaptonCompute k a (s\<lparr>currentlyAdapting := Some a\<rparr>) of
        None \<Rightarrow> None
      | Some (Thrown ex, s1) \<Rightarrow> Some (Thrown ex, s1)
      | Some (Returned v, s1) \<Rightarrow> Some (Returned v, leave (currentlyAdapting s) a s1)) \<and>
   currentlyAdapting (leave prev a s1) = prev \<and>
   (\<forall>d. prev = Some d \<longrightarrow>
      a \<in> set (sub (nodes (leave prev a s1) d)) \<and> d \<in> set (super (nodes (leave prev a s1) a))) \<and>
   (prev = None \<longrightarrow> nodes (leave prev a s1) = nodes s1) \<and>
   (a \<noteq> b \<and> b \<noteq> c \<and> a \<noteq> c \<and> \<not> clean (nodes s a) \<and> \<not> clean (nodes s b) \<and> clean (nodes s c) \<and>
    thunk (nodes s a) = Force b \<and> thunk (nodes s b) = Force c \<longrightarrow>
      (\<exists>s'. adaptonForce (Suc (Suc (Suc n))) a s = Some (Returned (result (nodes s c)), s') \<and>
            currentlyAdapting s' = currentlyAdapting s \<and>
            b \<in> set (sub (nodes s' a)) \<and> c \<in> set (sub (nodes s' b)) \<and>
            c \<notin> set (sub (nodes s' a)) \<and>
            a \<in> set (super (nodes s' b)) \<and> b \<in> set (super (nodes s' c)) \<and>
            (currentlyAdapting s = None \<longrightarrow> sub (nodes s' a) = [b] \<and> sub (nodes s' b) = [c])))"
proof -
  have edge: "\<forall>d. prev = Some d \<longrightarrow>
      a \<in> set (sub (nodes (leave prev a s1) d)) \<and> d \<in> set (super (nodes (leave prev a s1) a))"
    by (simp add: leave_sub leave_super set_set_add)
  have none: "prev = None \<longrightarrow> nodes (leave prev a s1) = nodes s1"
    by (simp add: leave_def)
  show ?thesis
    using force_unfold [of k a s] edge none force_chain [of a b c s n]
    by (simp only: leave_fields) blast
qed

theorem force_records_dependency_witness:
  "\<exists>s'. adaptonForce (Suc (Suc (Suc 1))) 2 world_N = Some (Returned (Num 7), s') \<and>
        currentlyAdapting s' = None \<and> sub (nodes s' 2) = [1] \<and> sub (nodes s' 1) = [0] \<and>
        2 \<in> set (super (nodes s' 1)) \<and> 1 \<in> set (super (nodes s' 0)) \<and>
        0 \<notin> set (sub (nodes s' 2))"
proof -
  have h: "(2::nat) \<noteq> 1 \<and> (1::nat) \<noteq> 0 \<and> (2::nat) \<noteq> 0 \<and> \<not> clean (nodes world_N 2) \<and>
           \<not> clean (nodes world_N 1) \<and> clean (nodes world_N 0) \<and>
           thunk (nodes world_N 2) = Force 1 \<and> thunk (nodes world_N 1) = Force 0"
    by (simp add: world_N_nodes)
  have r: "result (nodes world_N 0) = Num 7"
    by (simp add: world_N_nodes)
  from force_records_dependency [of 0 2 world_N None world_N 1 0 1] h
  show ?thesis
    by (simp only: world_N_rest r) blast
qed

section \<open>A computation that throws\<close>

lemma settled_compute: "adaptonCompute k a s = Some (r, s') \<Longrightarrow> read_only s \<Longrightarrow> settled s s'"
  using settled_all by blast








section \<open>The context after an exception\<close>







section \<open>The effects of the evaluator itself\<close>









section \<open>The fresh evaluation\<close>

declare fresh_value.simps [simp del]

lemma body_value_cong:
  "(\<And>x. x \<in> set (body_reads f e) \<Longrightarrow> f x = g x) \<Longrightarrow>
   body_value f e = body_value g e \<and> body_reads f e = body_reads g e"
  by (induction e) (auto split: if_splits)

lemma tracked_reads_below: "tracked b e \<Longrightarrow> x \<in> set (body_reads f e) \<Longrightarrow> x < b"
  by (induction e) (auto split: if_splits)

lemma fresh_value_ref: "thunk (nodes s n) = SelfResult \<Longrightarrow> fresh_value s n = result (nodes s n)"
  by (simp add: fresh_value.simps)

lemma fresh_value_thunk:
  assumes "tracked n (thunk (nodes s n))"
  shows "fresh_value s n = body_value (fresh_value s) (thunk (nodes s n))"
proof -
  let ?g = "\<lambda>x. if x < n then fresh_value s x else Undefined"
  from assms have nr: "thunk (nodes s n) \<noteq> SelfResult" by auto
  have "body_value (fresh_value s) (thunk (nodes s n)) = body_value ?g (thunk (nodes s n))"
    using body_value_cong [of "fresh_value s" "thunk (nodes s n)" ?g]
      tracked_reads_below [OF assms] by auto
  with nr show ?thesis by (simp add: fresh_value.simps)
qed

lemma fresh_value_same_inputs:
  assumes wf: "well_formed s" and same: "same_inputs s s'"
  shows "fresh_value s' n = fresh_value s n"
proof (induction n rule: less_induct)
  case (less n)
  show ?case
  proof (cases "thunk (nodes s n) = SelfResult")
    case True
    with same show ?thesis by (simp add: fresh_value_ref same_inputs_def)
  next
    case False
    with wf have tr: "tracked n (thunk (nodes s n))" by (auto simp: well_formed_def)
    from same have th: "thunk (nodes s' n) = thunk (nodes s n)" by (simp add: same_inputs_def)
    have "body_value (fresh_value s') (thunk (nodes s n)) =
            body_value (fresh_value s) (thunk (nodes s n))"
      using body_value_cong [of "fresh_value s" "thunk (nodes s n)" "fresh_value s'"]
        tracked_reads_below [OF tr] less.IH by auto
    with tr th show ?thesis by (simp add: fresh_value_thunk)
  qed
qed

lemma node_reads_same_inputs:
  assumes wf: "well_formed s" and same: "same_inputs s s'"
  shows "node_reads s' n = node_reads s n"
proof -
  have "fresh_value s' = fresh_value s"
    using fresh_value_same_inputs [OF wf same] by auto
  with same show ?thesis by (simp add: node_reads_def same_inputs_def)
qed


lemma well_formed_same_inputs: "well_formed s \<Longrightarrow> same_inputs s s' \<Longrightarrow> well_formed s'"
  by (simp add: well_formed_def same_inputs_def)

lemma tracked_no_refset: "tracked b e \<Longrightarrow> no_refset e"
  by (induction e) auto

lemma well_formed_read_only: "well_formed s \<Longrightarrow> read_only s"
  unfolding well_formed_def read_only_def
proof
  fix n
  assume "\<forall>n. thunk (nodes s n) = SelfResult \<or> tracked n (thunk (nodes s n))"
  then have "thunk (nodes s n) = SelfResult \<or> tracked n (thunk (nodes s n))" ..
  then show "no_refset (thunk (nodes s n))"
    using tracked_no_refset by auto
qed

lemma settled_same_inputs: "settled s s' \<Longrightarrow> same_inputs s s'"
  by (simp add: settled_def same_inputs_def)

text \<open>A node that is clean and consistent stays so across a settled step.\<close>

lemma consistent_at_settled:
  assumes wf: "well_formed s" and st: "settled s s'"
    and c: "consistent_at s n" and cl: "clean (nodes s n)"
  shows "consistent_at s' n"
proof -
  note same = settled_same_inputs [OF st]
  have fv: "fresh_value s' n = fresh_value s n"
    by (rule fresh_value_same_inputs [OF wf same])
  have rd: "node_reads s' n = node_reads s n"
    by (rule node_reads_same_inputs [OF wf same])
  from st cl have keep: "clean (nodes s' n)" "result (nodes s' n) = result (nodes s n)"
    "\<And>z. n \<in> set (super (nodes s z)) \<Longrightarrow> n \<in> set (super (nodes s' z))"
    by (auto simp: settled_def)
  from st have cm: "\<And>z. clean (nodes s z) \<Longrightarrow> clean (nodes s' z)"
    by (auto simp: settled_def)
  from c cl keep cm show ?thesis
    by (auto simp: consistent_at_def fv rd)
qed

section \<open>Reads in a store of tracked computations\<close>

lemma good_run_refl: "good_run t t"
  by (simp add: good_run_def settled_refl)

lemma good_run_well_formed: "well_formed t \<Longrightarrow> good_run t t' \<Longrightarrow> well_formed t'"
  using well_formed_same_inputs settled_same_inputs by (auto simp: good_run_def)

lemma good_run_trans:
  assumes wf: "well_formed s" and a: "good_run s t" and b: "good_run t u"
  shows "good_run s u"
proof -
  from a b have st: "settled s u" by (auto simp: good_run_def intro: settled_trans)
  have wft: "well_formed t" using wf a by (rule good_run_well_formed)
  have "consistent_at u n" if n: "clean (nodes u n)" "\<not> clean (nodes s n)" for n
  proof (cases "clean (nodes t n)")
    case True
    with n a have "consistent_at t n" by (simp add: good_run_def)
    with wft b True show ?thesis by (auto simp: good_run_def intro: consistent_at_settled)
  next
    case False
    with n b show ?thesis by (simp add: good_run_def)
  qed
  with st show ?thesis by (simp add: good_run_def)
qed

lemma good_run_consistent:
  assumes wf: "well_formed t" and g: "good_run t t'" and c: "consistent_at t n"
  shows "consistent_at t' n"
proof (cases "clean (nodes t n)")
  case True
  with wf g c show ?thesis by (auto simp: good_run_def intro: consistent_at_settled)
next
  case False
  with g show ?thesis by (auto simp: good_run_def consistent_at_def)
qed

lemma good_run_clean: "good_run t t' \<Longrightarrow> clean (nodes t n) \<Longrightarrow> clean (nodes t' n)"
  by (simp add: good_run_def settled_def)

lemma good_run_super:
  "good_run t t' \<Longrightarrow> clean (nodes t n) \<Longrightarrow> n \<in> set (super (nodes t z))
     \<Longrightarrow> n \<in> set (super (nodes t' z))"
  by (simp add: good_run_def settled_def)

lemma good_run_fresh:
  "well_formed t \<Longrightarrow> good_run t t' \<Longrightarrow> fresh_value t' = fresh_value t"
  using fresh_value_same_inputs settled_same_inputs by (auto simp: good_run_def)

text \<open>Two bodies evaluated one after the other, as every compound body does.\<close>

lemma eval_ok_seq:
  assumes wf: "well_formed t" and inv: "\<forall>n<x. consistent_at t n" and cl: "clean (nodes t x)"
    and first: "eval_ok k x e1 t t1"
    and second: "\<And>u. well_formed u \<Longrightarrow> \<forall>n<x. consistent_at u n \<Longrightarrow> currentlyAdapting u = Some x
                   \<Longrightarrow> clean (nodes u x) \<Longrightarrow> \<exists>u'. eval_ok k x e2 u u'"
  shows "\<exists>t2. eval k x e2 t1 = Some (Returned (body_value (fresh_value t) e2), t2) \<and>
              forced_by k x e2 t1 = body_reads (fresh_value t) e2 \<and>
              good_run t t2 \<and> currentlyAdapting t2 = Some x \<and>
              (\<forall>n. x < n \<longrightarrow> sub (nodes t2 n) = sub (nodes t n)) \<and>
              (\<forall>n. x < n \<longrightarrow> clean (nodes t2 n) = clean (nodes t n)) \<and>
              set (sub (nodes t2 x)) =
                set (sub (nodes t x)) \<union> set (body_reads (fresh_value t) e1) \<union>
                set (body_reads (fresh_value t) e2) \<and>
              (\<forall>z\<in>set (body_reads (fresh_value t) e1) \<union> set (body_reads (fresh_value t) e2).
                  clean (nodes t2 z) \<and> x \<in> set (super (nodes t2 z)))"
proof -
  from first have g1: "good_run t t1" and c1: "currentlyAdapting t1 = Some x"
    and s1: "\<forall>n. x < n \<longrightarrow> sub (nodes t1 n) = sub (nodes t n)"
    and f1: "\<forall>n. x < n \<longrightarrow> clean (nodes t1 n) = clean (nodes t n)"
    and o1: "set (sub (nodes t1 x)) = set (sub (nodes t x)) \<union> set (body_reads (fresh_value t) e1)"
    and r1: "\<forall>z\<in>set (body_reads (fresh_value t) e1). clean (nodes t1 z) \<and> x \<in> set (super (nodes t1 z))"
    by (simp_all add: eval_ok_def)
  have wf1: "well_formed t1" using wf g1 by (rule good_run_well_formed)
  have inv1: "\<forall>n<x. consistent_at t1 n"
    using inv good_run_consistent [OF wf g1] by blast
  have cl1: "clean (nodes t1 x)" using g1 cl by (rule good_run_clean)
  have fv: "fresh_value t1 = fresh_value t" using wf g1 by (rule good_run_fresh)
  from second [OF wf1 inv1 c1 cl1] obtain t2 where ok2: "eval_ok k x e2 t1 t2" by blast
  then have e2: "eval k x e2 t1 = Some (Returned (body_value (fresh_value t) e2), t2)"
    and fb2: "forced_by k x e2 t1 = body_reads (fresh_value t) e2"
    and g2: "good_run t1 t2" and c2: "currentlyAdapting t2 = Some x"
    and s2: "\<forall>n. x < n \<longrightarrow> sub (nodes t2 n) = sub (nodes t1 n)"
    and f2: "\<forall>n. x < n \<longrightarrow> clean (nodes t2 n) = clean (nodes t1 n)"
    and o2: "set (sub (nodes t2 x)) = set (sub (nodes t1 x)) \<union> set (body_reads (fresh_value t) e2)"
    and r2: "\<forall>z\<in>set (body_reads (fresh_value t) e2). clean (nodes t2 z) \<and> x \<in> set (super (nodes t2 z))"
    by (simp_all add: eval_ok_def fv)
  have g: "good_run t t2" using wf g1 g2 by (rule good_run_trans)
  have keep: "clean (nodes t2 z) \<and> x \<in> set (super (nodes t2 z))"
    if "z \<in> set (body_reads (fresh_value t) e1)" for z
    using that r1 g2 cl1 good_run_clean good_run_super by blast
  from e2 fb2 g c2 s1 s2 f1 f2 o1 o2 r2 keep show ?thesis by auto
qed

lemma eval_tracked:
  assumes IH: "\<And>y s. y < x \<Longrightarrow> well_formed s \<Longrightarrow> \<forall>n\<le>y. consistent_at s n \<Longrightarrow> force_ok k y s"
  shows "tracked x e \<Longrightarrow> well_formed t \<Longrightarrow> \<forall>n<x. consistent_at t n \<Longrightarrow>
         currentlyAdapting t = Some x \<Longrightarrow> clean (nodes t x) \<Longrightarrow> \<exists>t'. eval_ok k x e t t'"
proof (induction e arbitrary: t)
  case (Lit v)
  have "eval_ok k x (Lit v) t t"
    using Lit.prems by (simp add: eval_ok_def good_run_refl)
  then show ?case ..
next
  case (Force y)
  from Force.prems have y: "y < x" by simp
  have "\<forall>n\<le>y. consistent_at t n" using Force.prems(3) y by auto
  from IH [OF y Force.prems(2) this] obtain t' where
    run: "adaptonForce k y t = Some (Returned (fresh_value t y), t')"
    and g: "good_run t t'" and cl: "clean (nodes t' y)"
    and ctx: "currentlyAdapting t' = currentlyAdapting t"
    and sb: "\<forall>n. y < n \<longrightarrow> sub (nodes t' n) =
                (if currentlyAdapting t = Some n then set_add y (sub (nodes t n))
                 else sub (nodes t n))"
    and fl: "\<forall>n. y < n \<longrightarrow> clean (nodes t' n) = clean (nodes t n)"
    and sp: "\<forall>c. currentlyAdapting t = Some c \<longrightarrow> c \<in> set (super (nodes t' y))"
    unfolding force_ok_def by blast
  have "eval_ok k x (Force y) t t'"
    unfolding eval_ok_def
    using run g cl ctx sb fl sp y Force.prems(4)
    by (auto simp: set_set_add)
  then show ?case ..
next
  case (Add e1 e2)
  from Add.prems have tr: "tracked x e1" "tracked x e2" by simp_all
  from Add.IH(1) [OF tr(1) Add.prems(2-5)] obtain t1 where ok1: "eval_ok k x e1 t t1" ..
  from eval_ok_seq [OF Add.prems(2,3,5) ok1 Add.IH(2) [OF tr(2)]]
  obtain t2 where
    e2: "eval k x e2 t1 = Some (Returned (body_value (fresh_value t) e2), t2)"
    and fb2: "forced_by k x e2 t1 = body_reads (fresh_value t) e2"
    and rest: "good_run t t2" "currentlyAdapting t2 = Some x"
      "\<forall>n. x < n \<longrightarrow> sub (nodes t2 n) = sub (nodes t n)"
      "\<forall>n. x < n \<longrightarrow> clean (nodes t2 n) = clean (nodes t n)"
      "set (sub (nodes t2 x)) =
         set (sub (nodes t x)) \<union> set (body_reads (fresh_value t) e1) \<union>
         set (body_reads (fresh_value t) e2)"
      "\<forall>z\<in>set (body_reads (fresh_value t) e1) \<union> set (body_reads (fresh_value t) e2).
          clean (nodes t2 z) \<and> x \<in> set (super (nodes t2 z))"
    by blast
  from ok1 have e1: "eval k x e1 t = Some (Returned (body_value (fresh_value t) e1), t1)"
    and fb1: "forced_by k x e1 t = body_reads (fresh_value t) e1"
    by (simp_all add: eval_ok_def)
  have "eval_ok k x (Add e1 e2) t t2"
    unfolding eval_ok_def using e1 e2 fb1 fb2 rest by (simp add: Un_assoc)
  then show ?case ..
next
  case (Subtract e1 e2)
  from Subtract.prems have tr: "tracked x e1" "tracked x e2" by simp_all
  from Subtract.IH(1) [OF tr(1) Subtract.prems(2-5)] obtain t1 where ok1: "eval_ok k x e1 t t1" ..
  from eval_ok_seq [OF Subtract.prems(2,3,5) ok1 Subtract.IH(2) [OF tr(2)]]
  obtain t2 where
    e2: "eval k x e2 t1 = Some (Returned (body_value (fresh_value t) e2), t2)"
    and fb2: "forced_by k x e2 t1 = body_reads (fresh_value t) e2"
    and rest: "good_run t t2" "currentlyAdapting t2 = Some x"
      "\<forall>n. x < n \<longrightarrow> sub (nodes t2 n) = sub (nodes t n)"
      "\<forall>n. x < n \<longrightarrow> clean (nodes t2 n) = clean (nodes t n)"
      "set (sub (nodes t2 x)) =
         set (sub (nodes t x)) \<union> set (body_reads (fresh_value t) e1) \<union>
         set (body_reads (fresh_value t) e2)"
      "\<forall>z\<in>set (body_reads (fresh_value t) e1) \<union> set (body_reads (fresh_value t) e2).
          clean (nodes t2 z) \<and> x \<in> set (super (nodes t2 z))"
    by blast
  from ok1 have e1: "eval k x e1 t = Some (Returned (body_value (fresh_value t) e1), t1)"
    and fb1: "forced_by k x e1 t = body_reads (fresh_value t) e1"
    by (simp_all add: eval_ok_def)
  have "eval_ok k x (Subtract e1 e2) t t2"
    unfolding eval_ok_def using e1 e2 fb1 fb2 rest by (simp add: Un_assoc)
  then show ?case ..
next
  case (IfThenElse c e1 e2)
  from IfThenElse.prems have tr: "tracked x c" "tracked x e1" "tracked x e2" by simp_all
  from IfThenElse.IH(1) [OF tr(1) IfThenElse.prems(2-5)] obtain t1 where
    ok1: "eval_ok k x c t t1" ..
  then have ec: "eval k x c t = Some (Returned (body_value (fresh_value t) c), t1)"
    and fbc: "forced_by k x c t = body_reads (fresh_value t) c"
    by (simp_all add: eval_ok_def)
  show ?case
  proof (cases "truthy (body_value (fresh_value t) c)")
    case True
    from eval_ok_seq [OF IfThenElse.prems(2,3,5) ok1 IfThenElse.IH(2) [OF tr(2)]]
    obtain t2 where
      e2: "eval k x e1 t1 = Some (Returned (body_value (fresh_value t) e1), t2)"
      and fb2: "forced_by k x e1 t1 = body_reads (fresh_value t) e1"
      and rest: "good_run t t2" "currentlyAdapting t2 = Some x"
        "\<forall>n. x < n \<longrightarrow> sub (nodes t2 n) = sub (nodes t n)"
      "\<forall>n. x < n \<longrightarrow> clean (nodes t2 n) = clean (nodes t n)"
        "set (sub (nodes t2 x)) =
           set (sub (nodes t x)) \<union> set (body_reads (fresh_value t) c) \<union>
           set (body_reads (fresh_value t) e1)"
        "\<forall>z\<in>set (body_reads (fresh_value t) c) \<union> set (body_reads (fresh_value t) e1).
            clean (nodes t2 z) \<and> x \<in> set (super (nodes t2 z))"
      by blast
    have "eval_ok k x (IfThenElse c e1 e2) t t2"
      unfolding eval_ok_def using ec e2 fbc fb2 rest True by (simp add: Un_assoc)
    then show ?thesis ..
  next
    case False
    from eval_ok_seq [OF IfThenElse.prems(2,3,5) ok1 IfThenElse.IH(3) [OF tr(3)]]
    obtain t2 where
      e2: "eval k x e2 t1 = Some (Returned (body_value (fresh_value t) e2), t2)"
      and fb2: "forced_by k x e2 t1 = body_reads (fresh_value t) e2"
      and rest: "good_run t t2" "currentlyAdapting t2 = Some x"
        "\<forall>n. x < n \<longrightarrow> sub (nodes t2 n) = sub (nodes t n)"
      "\<forall>n. x < n \<longrightarrow> clean (nodes t2 n) = clean (nodes t n)"
        "set (sub (nodes t2 x)) =
           set (sub (nodes t x)) \<union> set (body_reads (fresh_value t) c) \<union>
           set (body_reads (fresh_value t) e2)"
        "\<forall>z\<in>set (body_reads (fresh_value t) c) \<union> set (body_reads (fresh_value t) e2).
            clean (nodes t2 z) \<and> x \<in> set (super (nodes t2 z))"
      by blast
    have "eval_ok k x (IfThenElse c e1 e2) t t2"
      unfolding eval_ok_def using ec e2 fbc fb2 rest False by (simp add: Un_assoc)
    then show ?thesis ..
  qed
qed simp_all

lemma same_inputs_prepare: "same_inputs t (prepare x t)"
  by (simp add: same_inputs_def prepare_fields)

lemma consistent_at_prepare:
  assumes wf: "well_formed t" and ne: "n \<noteq> x" and c: "consistent_at t n"
  shows "consistent_at (prepare x t) n"
proof -
  have fv: "fresh_value (prepare x t) = fresh_value t"
    using fresh_value_same_inputs [OF wf same_inputs_prepare] by auto
  have rd: "node_reads (prepare x t) n = node_reads t n"
    by (rule node_reads_same_inputs [OF wf same_inputs_prepare])
  show ?thesis
    using c ne
    by (auto simp: consistent_at_def fv rd prepare_fields prepare_super)
qed

lemma consistent_at_store:
  assumes wf: "well_formed t" and ne: "n \<noteq> x"
    and ref: "thunk (nodes t x) = SelfResult \<longrightarrow> v = result (nodes t x)"
    and c: "consistent_at t n"
  shows "consistent_at (upd x (\<lambda>n. n\<lparr>result := v\<rparr>) t) n"
proof -
  let ?u = "upd x (\<lambda>n. n\<lparr>result := v\<rparr>) t"
  have same: "same_inputs t ?u"
    using ref by (simp add: same_inputs_def upd_result_fields)
  have fv: "fresh_value ?u = fresh_value t"
    using fresh_value_same_inputs [OF wf same] by auto
  have rd: "node_reads ?u n = node_reads t n"
    by (rule node_reads_same_inputs [OF wf same])
  show ?thesis
    using c ne
    by (auto simp: consistent_at_def fv rd upd_result_fields)
qed

lemma settled_compute_wf:
  "well_formed t \<Longrightarrow> adaptonCompute k x t = Some (r, t') \<Longrightarrow> settled t t'"
  using settled_compute well_formed_read_only by blast

lemma compute_tracked:
  assumes IH: "\<And>y s. y < x \<Longrightarrow> well_formed s \<Longrightarrow> \<forall>n\<le>y. consistent_at s n \<Longrightarrow> force_ok k y s"
    and wf: "well_formed t" and inv: "\<forall>n\<le>x. consistent_at t n"
    and ctx: "currentlyAdapting t = Some x" and fuel: "0 < k"
  shows "\<exists>t'. adaptonCompute (Suc k) x t = Some (Returned (fresh_value t x), t') \<and>
              good_run t t' \<and> clean (nodes t' x) \<and> currentlyAdapting t' = Some x \<and>
              (\<forall>n. x < n \<longrightarrow> sub (nodes t' n) = sub (nodes t n)) \<and>
              (\<forall>n. x < n \<longrightarrow> clean (nodes t' n) = clean (nodes t n)) \<and>
              (\<not> clean (nodes t x) \<longrightarrow> set (sub (nodes t' x)) = set (node_reads t x)) \<and>
              (\<not> clean (nodes t x) \<longrightarrow>
                 forced_by k x (thunk (nodes t x)) (prepare x t) = node_reads t x)"
proof (cases "clean (nodes t x)")
  case True
  from inv have "consistent_at t x" by simp
  with True have "result (nodes t x) = fresh_value t x" by (simp add: consistent_at_def)
  with True ctx show ?thesis by (simp add: good_run_refl)
next
  case False
  define t2 where "t2 = prepare x t"
  have wf2: "well_formed t2"
    unfolding t2_def using wf same_inputs_prepare by (rule well_formed_same_inputs)
  have fv2: "fresh_value t2 = fresh_value t"
    unfolding t2_def using fresh_value_same_inputs [OF wf same_inputs_prepare] by auto
  have inv2: "\<forall>n<x. consistent_at t2 n"
    unfolding t2_def using inv consistent_at_prepare [OF wf] by auto
  have ctx2: "currentlyAdapting t2 = Some x" by (simp add: t2_def prepare_fields ctx)
  have cl2: "clean (nodes t2 x)" by (simp add: t2_def prepare_fields)
  have th2: "thunk (nodes t2 x) = thunk (nodes t x)" by (simp add: t2_def prepare_fields)
  have body: "\<exists>t3. eval k x (thunk (nodes t2 x)) t2 = Some (Returned (fresh_value t x), t3) \<and>
      forced_by k x (thunk (nodes t2 x)) t2 = node_reads t x \<and>
      good_run t2 t3 \<and> currentlyAdapting t3 = Some x \<and>
      (\<forall>n. x < n \<longrightarrow> sub (nodes t3 n) = sub (nodes t2 n)) \<and>
      (\<forall>n. x < n \<longrightarrow> clean (nodes t3 n) = clean (nodes t2 n)) \<and>
      set (sub (nodes t3 x)) = set (node_reads t x) \<and>
      (\<forall>z\<in>set (node_reads t x). clean (nodes t3 z) \<and> x \<in> set (super (nodes t3 z))) \<and>
      (thunk (nodes t3 x) = SelfResult \<longrightarrow> fresh_value t x = result (nodes t3 x))"
  proof (cases "thunk (nodes t x) = SelfResult")
    case True
    then have "eval k x (thunk (nodes t2 x)) t2 = Some (Returned (fresh_value t x), t2)"
      by (simp add: th2 fresh_value_ref t2_def prepare_fields)
    moreover have "set (sub (nodes t2 x)) = set (node_reads t x)"
      using True by (simp add: node_reads_def t2_def prepare_sub)
    moreover have "fresh_value t x = result (nodes t2 x)"
      using True by (simp add: fresh_value_ref t2_def prepare_fields)
    moreover have "forced_by k x (thunk (nodes t2 x)) t2 = node_reads t x"
      using True by (simp add: th2 node_reads_def)
    ultimately show ?thesis
      using True ctx2 by (auto simp: good_run_refl node_reads_def)
  next
    case False
    with wf have tr: "tracked x (thunk (nodes t x))" by (auto simp: well_formed_def)
    from eval_tracked [OF IH tr [folded th2] wf2 inv2 ctx2 cl2] obtain t3 where
      ok: "eval_ok k x (thunk (nodes t2 x)) t2 t3" by blast
    have val: "body_value (fresh_value t2) (thunk (nodes t2 x)) = fresh_value t x"
      using tr by (simp add: fv2 th2 fresh_value_thunk)
    have rds: "body_reads (fresh_value t2) (thunk (nodes t2 x)) = node_reads t x"
      using False by (simp add: fv2 th2 node_reads_def)
    have "sub (nodes t2 x) = []" by (simp add: t2_def prepare_sub)
    moreover have "thunk (nodes t3 x) \<noteq> SelfResult"
      using ok False th2 by (auto simp: eval_ok_def good_run_def settled_def)
    ultimately show ?thesis
      using ok unfolding eval_ok_def val rds by auto
  qed
  then obtain t3 where
    run3: "eval k x (thunk (nodes t2 x)) t2 = Some (Returned (fresh_value t x), t3)"
    and fb3: "forced_by k x (thunk (nodes t2 x)) t2 = node_reads t x"
    and g3: "good_run t2 t3" and ctx3: "currentlyAdapting t3 = Some x"
    and sb3: "\<forall>n. x < n \<longrightarrow> sub (nodes t3 n) = sub (nodes t2 n)"
    and fl3: "\<forall>n. x < n \<longrightarrow> clean (nodes t3 n) = clean (nodes t2 n)"
    and own3: "set (sub (nodes t3 x)) = set (node_reads t x)"
    and rd3: "\<forall>z\<in>set (node_reads t x). clean (nodes t3 z) \<and> x \<in> set (super (nodes t3 z))"
    and ref3: "thunk (nodes t3 x) = SelfResult \<longrightarrow> fresh_value t x = result (nodes t3 x)"
    by blast
  define t4 where "t4 = upd x (\<lambda>n. n\<lparr>result := fresh_value t x\<rparr>) t3"
  have wf3: "well_formed t3" using wf2 g3 by (rule good_run_well_formed)
  have cl3: "clean (nodes t3 x)" using g3 cl2 by (rule good_run_clean)
  have cl4: "clean (nodes t4 x)" using cl3 by (simp add: t4_def upd_result_fields)
  obtain k' where k': "k = Suc k'" using fuel by (cases k) auto
  have again: "adaptonCompute k x t4 = Some (Returned (fresh_value t x), t4)"
    using cl4 by (simp add: k' t4_def upd_result_fields)
  have run: "adaptonCompute (Suc k) x t = Some (Returned (fresh_value t x), t4)"
    using run3 again
    by (simp only: compute_dirty_unfold [OF False] t2_def [symmetric]) (simp add: t4_def)
  have st: "settled t t4" using wf run by (rule settled_compute_wf)
  have fv4: "fresh_value t4 = fresh_value t"
    using fresh_value_same_inputs [OF wf settled_same_inputs [OF st]] by auto
  have rd4: "node_reads t4 x = node_reads t x"
    by (rule node_reads_same_inputs [OF wf settled_same_inputs [OF st]])
  have own: "consistent_at t4 x"
    using rd3 by (simp add: consistent_at_def fv4 rd4) (simp add: t4_def upd_result_fields)
  have new: "consistent_at t4 n" if n: "clean (nodes t4 n)" "\<not> clean (nodes t n)" for n
  proof (cases "n = x")
    case True
    with own show ?thesis by simp
  next
    case ne: False
    from n ne have "clean (nodes t3 n)" "\<not> clean (nodes t2 n)"
      by (simp_all add: t4_def t2_def upd_result_fields prepare_fields)
    with g3 have "consistent_at t3 n" by (simp add: good_run_def)
    from consistent_at_store [OF wf3 ne ref3 this] show ?thesis by (simp add: t4_def)
  qed
  have g: "good_run t t4" using st new by (simp add: good_run_def)
  have ctx4: "currentlyAdapting t4 = Some x" by (simp add: t4_def ctx_upd ctx3)
  have sb4: "\<forall>n. x < n \<longrightarrow> sub (nodes t4 n) = sub (nodes t n)"
    using sb3 by (simp add: t4_def t2_def upd_result_fields prepare_sub)
  have fl4: "\<forall>n. x < n \<longrightarrow> clean (nodes t4 n) = clean (nodes t n)"
    using fl3 by (simp add: t4_def t2_def upd_result_fields prepare_fields)
  have own4: "set (sub (nodes t4 x)) = set (node_reads t x)"
    using own3 by (simp add: t4_def upd_result_fields)
  have fb4: "forced_by k x (thunk (nodes t x)) (prepare x t) = node_reads t x"
    using fb3 by (simp add: t2_def prepare_fields)
  from run g cl4 ctx4 sb4 fl4 own4 fb4 show ?thesis by blast
qed

lemma fresh_value_nodes:
  assumes "nodes s' = nodes s"
  shows "fresh_value s' n = fresh_value s n"
proof (induction n rule: less_induct)
  case (less n)
  have "(\<lambda>x. if x < n then fresh_value s' x else Undefined) =
        (\<lambda>x. if x < n then fresh_value s x else Undefined)"
    using less.IH by auto
  then show ?case
    using assms by (simp add: fresh_value.simps [of s' n] fresh_value.simps [of s n])
qed

lemma fresh_value_nodes_fun: "nodes s' = nodes s \<Longrightarrow> fresh_value s' = fresh_value s"
  by (rule ext) (rule fresh_value_nodes)

lemma node_reads_nodes:
  assumes "nodes s' = nodes s"
  shows "node_reads s' n = node_reads s n"
  using assms by (simp add: node_reads_def fresh_value_nodes_fun [OF assms])

lemma consistent_at_nodes:
  assumes "nodes s' = nodes s"
  shows "consistent_at s' n = consistent_at s n"
  using assms
  by (simp add: consistent_at_def node_reads_nodes [OF assms] fresh_value_nodes_fun [OF assms])

lemma good_run_ctx: "good_run s (s\<lparr>currentlyAdapting := c\<rparr>)"
  by (simp add: good_run_def settled_ctx)

lemma good_run_leave: "good_run s (leave prev a s)"
  by (simp add: good_run_def settled_leave leave_fields)

lemma force_tracked:
  "well_formed s \<Longrightarrow> \<forall>n\<le>x. consistent_at s n \<Longrightarrow> x + 2 \<le> k \<Longrightarrow> force_ok k x s"
proof (induction x arbitrary: s k rule: less_induct)
  case (less x)
  from less.prems(3) obtain k1 where k: "k = Suc k1" and k1: "x + 1 \<le> k1"
    by (cases k) auto
  have IH: "force_ok k1 y u"
    if "y < x" "well_formed u" "\<forall>n\<le>y. consistent_at u n" for y u
    using less.IH [OF that] that(1) k1 by simp
  let ?t = "s\<lparr>currentlyAdapting := Some x\<rparr>"
  have nd: "nodes ?t = nodes s" by simp
  have wft: "well_formed ?t" using less.prems(1) by (simp add: well_formed_def)
  have invt: "\<forall>n\<le>x. consistent_at ?t n"
    using less.prems(2) consistent_at_nodes [OF nd] by simp
  have ctxt: "currentlyAdapting ?t = Some x" by simp
  have "0 < k1" using k1 by simp
  from compute_tracked [OF IH wft invt ctxt this] obtain t' where
    all: "adaptonCompute (Suc k1) x ?t = Some (Returned (fresh_value ?t x), t') \<and>
          good_run ?t t' \<and> clean (nodes t' x) \<and> currentlyAdapting t' = Some x \<and>
          (\<forall>n. x < n \<longrightarrow> sub (nodes t' n) = sub (nodes ?t n)) \<and>
          (\<forall>n. x < n \<longrightarrow> clean (nodes t' n) = clean (nodes ?t n)) \<and>
          (\<not> clean (nodes ?t x) \<longrightarrow> set (sub (nodes t' x)) = set (node_reads ?t x)) \<and>
          (\<not> clean (nodes ?t x) \<longrightarrow>
             forced_by k1 x (thunk (nodes ?t x)) (prepare x ?t) = node_reads ?t x)" ..
  from all have run: "adaptonCompute (Suc k1) x ?t = Some (Returned (fresh_value ?t x), t')" ..
  from all have g: "good_run ?t t'" by (elim conjE)
  from all have cl: "clean (nodes t' x)" by (elim conjE)
  from all have ctx: "currentlyAdapting t' = Some x" by (elim conjE)
  from all have sb: "\<forall>n. x < n \<longrightarrow> sub (nodes t' n) = sub (nodes ?t n)" by (elim conjE)
  from all have fl: "\<forall>n. x < n \<longrightarrow> clean (nodes t' n) = clean (nodes ?t n)" by (elim conjE)
  from all have own: "\<not> clean (nodes ?t x) \<longrightarrow> set (sub (nodes t' x)) = set (node_reads ?t x)"
    by (elim conjE)
  from all have fb: "\<not> clean (nodes ?t x) \<longrightarrow>
             forced_by k1 x (thunk (nodes ?t x)) (prepare x ?t) = node_reads ?t x"
    by (elim conjE)
  define s' where "s' = leave (currentlyAdapting s) x t'"
  have fv: "fresh_value ?t x = fresh_value s x" by (rule fresh_value_nodes [OF nd])
  have frun: "adaptonForce k x s = Some (Returned (fresh_value s x), s')"
    by (simp only: force_unfold k run fv option.case prod.case outcome.case s'_def)
  have gt: "good_run s t'"
    using less.prems(1) good_run_ctx g by (rule good_run_trans)
  have gs: "good_run s s'"
    unfolding s'_def using less.prems(1) gt good_run_leave by (rule good_run_trans)
  have cls: "clean (nodes s' x)" using cl by (simp add: s'_def leave_fields)
  have ctxs: "currentlyAdapting s' = currentlyAdapting s" by (simp add: s'_def leave_fields)
  have sbs: "\<forall>n. x < n \<longrightarrow> sub (nodes s' n) =
                (if currentlyAdapting s = Some n then set_add x (sub (nodes s n))
                 else sub (nodes s n))"
    using sb by (simp add: s'_def leave_sub)
  have fls: "\<forall>n. x < n \<longrightarrow> clean (nodes s' n) = clean (nodes s n)"
    using fl by (simp add: s'_def leave_fields)
  have sps: "\<forall>c. currentlyAdapting s = Some c \<longrightarrow> c \<in> set (super (nodes s' x))"
    by (simp add: s'_def leave_super set_set_add)
  have owns: "\<not> clean (nodes s x) \<and> currentlyAdapting s \<noteq> Some x \<longrightarrow>
              set (sub (nodes s' x)) = set (node_reads s x)"
    using own by (simp add: s'_def leave_sub node_reads_nodes [OF nd])
  have fbs: "\<not> clean (nodes s x) \<longrightarrow>
              forced_by (k - 1) x (thunk (nodes s x)) (prepare x ?t) = node_reads s x"
    using fb k by (simp add: node_reads_nodes [OF nd])
  show ?case
    unfolding force_ok_def
    by (intro exI [of _ s'] conjI frun gs cls ctxs sbs fls sps owns fbs)
qed

section \<open>Client programs keep the store coherent\<close>












text \<open>Every call of a client program returns, given fuel above the size of the store.\<close>

lemma client_step_returns:
  assumes co: "coherent s" and fuel: "fresh_addr s < k"
    and ok: "case c of
               NewRef v \<Rightarrow> True
             | NewThunk e \<Rightarrow> tracked (fresh_addr s) e
             | SetRef a v \<Rightarrow> a < fresh_addr s \<and> thunk (nodes s a) = SelfResult
             | Read a \<Rightarrow> a < fresh_addr s"
  shows "\<exists>s'. client_step k c s = Some s'"
proof (cases c)
  case (NewRef v)
  then show ?thesis by simp
next
  case (NewThunk e)
  with ok show ?thesis by simp
next
  case (SetRef a v)
  let ?u = "upd a (\<lambda>n. n\<lparr>result := v\<rparr>) s"
  from co have al: "\<forall>n. clean (nodes s n) \<longrightarrow> n < fresh_addr s" by (simp add: coherent_def)
  have sub: "{n. clean (nodes ?u n)} \<subseteq> {..<fresh_addr s}"
    using al by (auto simp: upd_result_fields)
  then have fin: "finite {n. clean (nodes ?u n)}" by (rule finite_subset) simp
  have "card {n. clean (nodes ?u n)} \<le> card {..<fresh_addr s}"
    using sub by (intro card_mono) simp_all
  with fuel have "card {n. clean (nodes ?u n)} < k" by simp
  from adaptonDirty_returns [OF fin this, of a] show ?thesis
    using SetRef ok fuel by (simp add: adaptonRefSet_def)
next
  case (Read a)
  with ok have a: "a < fresh_addr s" by simp
  from co have "well_formed s" and "\<forall>m\<le>a. consistent_at s m" by (simp_all add: coherent_def)
  moreover from a fuel have "a + 2 \<le> k" by simp
  ultimately have "force_ok k a s" by (rule force_tracked)
  then show ?thesis
    using Read a fuel unfolding force_ok_def by auto
qed

section \<open>Recompute correctness and dependency rediscovery\<close>









end
